theory Spec2Isabelle
  imports Complex_Main "HOL-Library.Multiset"
begin

section \<open>The graph IR that the quantization passes work on\<close>

text \<open>
  The passes of \<^verbatim>\<open>torch/csrc/jit/passes/quantization.cpp\<close> mutate a graph of the JIT IR in
  place. The IR itself (\<^verbatim>\<open>ir.h\<close>, \<^verbatim>\<open>operator.h\<close>) is not part of the sources at hand, so its
  data and primitives are modelled from the specification (sections 3 and 6): an arena of
  nodes and values addressed by stable identifiers (the pointers \<^verbatim>\<open>Node*\<close> and \<^verbatim>\<open>Value*\<close> of
  the code), and the ownership tree of blocks and nodes.
\<close>

datatype ivalue = IString string | IDouble real | IInt int

datatype jtype = TensorType | CompleteTensorType | StringType | FloatType | IntType | OtherType

text \<open>\<^verbatim>\<open>v->type()->isSubtypeOf(TensorType::get())\<close>\<close>

fun isSubtypeOfTensor :: "jtype \<Rightarrow> bool" where
  "isSubtypeOfTensor TensorType = True"
| "isSubtypeOfTensor CompleteTensorType = True"
| "isSubtypeOfTensor _ = False"

text \<open>
  A node: its operator identity is the qualified name \<open>n_kind\<close> (what \<^verbatim>\<open>n->kind()\<close> reads)
  followed by the overload signature \<open>n_overload\<close>; \<open>n_payload\<close> is the value a constant
  holds, \<open>n_attr\<close> stands for the remaining attributes (for an opaque call, the callable).
\<close>

record node =
  n_kind :: string
  n_overload :: string
  n_payload :: "ivalue option"
  n_attr :: string
  n_scope :: string
  n_inputs :: "nat list"
  n_outputs :: "nat list"

record val =
  v_type :: jtype
  v_name :: string
  v_node :: nat

text \<open>
  The ownership tree: a block owns an ordered sequence of nodes, a node owns its nested
  blocks. \<open>bret\<close> is the block's return node: the block's declared outputs are the inputs
  of that node, so that a block output is a use of the value like any other, and the
  return node is what \<^verbatim>\<open>*nodes().begin()\<close> yields for a block without nodes.
\<close>

datatype nd = Nd (nid: nat) (nblocks: "blk list")
  and blk = Blk (bret: nat) (bnodes: "nd list")

record graph =
  g_root :: blk
  g_nodes :: "nat \<Rightarrow> node"
  g_vals :: "nat \<Rightarrow> val"
  g_inputs :: "nat list"
  g_next_node :: nat
  g_next_val :: nat

datatype error =
    AssertionFailed
  | IndexOutOfRange
  | BadOptionalAccess
  | NotAString
  | NullPointer
  | RuntimeError string

type_synonym qparam = "string \<times> real \<times> int"

definition kPythonOp :: string where "kPythonOp = ''prim::PythonOp''"
definition kConstant :: string where "kConstant = ''prim::Constant''"
definition kParam :: string where "kParam = ''prim::Param''"
definition kReturn :: string where "kReturn = ''prim::Return''"

subsection \<open>Reading the graph\<close>

definition node_of :: "graph \<Rightarrow> nat \<Rightarrow> node" where
  "node_of g v = g_nodes g (v_node (g_vals g v))"

definition uniqueName :: "graph \<Rightarrow> nat \<Rightarrow> string" where
  "uniqueName g v = v_name (g_vals g v)"

definition is_tensor :: "graph \<Rightarrow> nat \<Rightarrow> bool" where
  "is_tensor g v = isSubtypeOfTensor (v_type (g_vals g v))"

text \<open>\<^verbatim>\<open>b->outputs()\<close>: the inputs of the block's return node.\<close>

definition block_outputs :: "graph \<Rightarrow> blk \<Rightarrow> nat list" where
  "block_outputs g b = n_inputs (g_nodes g (bret b))"

text \<open>
  Modelled from the spec: \<^verbatim>\<open>toIValue\<close> of the host IR (constant utilities), the value a
  constant-producing node holds; nothing for a value that no constant produces.
\<close>

definition toIValue :: "graph \<Rightarrow> nat \<Rightarrow> ivalue option" where
  "toIValue g v = (if n_kind (node_of g v) = kConstant then n_payload (node_of g v) else None)"

text \<open>All nodes of a block, nested ones included, and all blocks, in ownership order.\<close>

fun nodes_of_nd :: "nd \<Rightarrow> nd list"
  and nodes_of_blk :: "blk \<Rightarrow> nd list"
  and nodes_of_nds :: "nd list \<Rightarrow> nd list"
  and nodes_of_blks :: "blk list \<Rightarrow> nd list" where
  "nodes_of_nd (Nd i bs) = Nd i bs # nodes_of_blks bs"
| "nodes_of_blk (Blk r ns) = nodes_of_nds ns"
| "nodes_of_nds [] = []"
| "nodes_of_nds (n # ns) = nodes_of_nd n @ nodes_of_nds ns"
| "nodes_of_blks [] = []"
| "nodes_of_blks (b # bs) = nodes_of_blk b @ nodes_of_blks bs"

fun blocks_of_nd :: "nd \<Rightarrow> blk list"
  and blocks_of_blk :: "blk \<Rightarrow> blk list"
  and blocks_of_nds :: "nd list \<Rightarrow> blk list"
  and blocks_of_blks :: "blk list \<Rightarrow> blk list" where
  "blocks_of_nd (Nd i bs) = blocks_of_blks bs"
| "blocks_of_blk (Blk r ns) = Blk r ns # blocks_of_nds ns"
| "blocks_of_nds [] = []"
| "blocks_of_nds (n # ns) = blocks_of_nd n @ blocks_of_nds ns"
| "blocks_of_blks [] = []"
| "blocks_of_blks (b # bs) = blocks_of_blk b @ blocks_of_blks bs"

definition node_ids :: "graph \<Rightarrow> nat list" where
  "node_ids g = map nid (nodes_of_blk (g_root g))"

section \<open>Primitives of the host IR\<close>

text \<open>
  Modelled from the spec: the graph-mutation primitives of the host IR (section 6 of the
  specification), which the passes call and whose code is not part of the sources at hand.
  A node identifier stands where the code has a pointer; identifiers of the nodes of a
  graph are pairwise different, so a position given by an anchor node matches at most once.
\<close>

definition blank_node :: "string \<Rightarrow> node" where
  "blank_node k = \<lparr>n_kind = k, n_overload = [], n_payload = None, n_attr = [], n_scope = [],
     n_inputs = [], n_outputs = []\<rparr>"

text \<open>Modelled from the spec: allocation of an unattached node without inputs or outputs.\<close>

definition alloc_node :: "node \<Rightarrow> graph \<Rightarrow> nat \<times> graph" where
  "alloc_node nd0 g =
     (g_next_node g,
      g\<lparr>g_nodes := (g_nodes g)(g_next_node g := nd0\<lparr>n_inputs := [], n_outputs := []\<rparr>),
        g_next_node := Suc (g_next_node g)\<rparr>)"

text \<open>
  Modelled from the spec: \<^verbatim>\<open>Node::addOutput\<close>, a new value produced by the node, appended
  to its outputs; a new value is tensor-typed and unnamed until the caller sets either.
\<close>

definition addOutput :: "nat \<Rightarrow> graph \<Rightarrow> nat \<times> graph" where
  "addOutput n g =
     (g_next_val g,
      g\<lparr>g_vals := (g_vals g)(g_next_val g := \<lparr>v_type = TensorType, v_name = [], v_node = n\<rparr>),
        g_nodes := (g_nodes g)(n := (g_nodes g n)\<lparr>n_outputs := n_outputs (g_nodes g n) @ [g_next_val g]\<rparr>),
        g_next_val := Suc (g_next_val g)\<rparr>)"

text \<open>Modelled from the spec: \<^verbatim>\<open>Node::addInput\<close>, the value appended to the node's inputs.\<close>

definition addInput :: "nat \<Rightarrow> nat \<Rightarrow> graph \<Rightarrow> graph" where
  "addInput n v g =
     g\<lparr>g_nodes := (g_nodes g)(n := (g_nodes g n)\<lparr>n_inputs := n_inputs (g_nodes g n) @ [v]\<rparr>)\<rparr>"

text \<open>Modelled from the spec: \<^verbatim>\<open>Value::setType\<close>, \<^verbatim>\<open>Value::setUniqueName\<close>, \<^verbatim>\<open>Node::setScope\<close>.\<close>

definition setType :: "nat \<Rightarrow> jtype \<Rightarrow> graph \<Rightarrow> graph" where
  "setType v t g = g\<lparr>g_vals := (g_vals g)(v := (g_vals g v)\<lparr>v_type := t\<rparr>)\<rparr>"

definition setUniqueName :: "nat \<Rightarrow> string \<Rightarrow> graph \<Rightarrow> graph" where
  "setUniqueName v s g = g\<lparr>g_vals := (g_vals g)(v := (g_vals g v)\<lparr>v_name := s\<rparr>)\<rparr>"

definition setScope :: "nat \<Rightarrow> string \<Rightarrow> graph \<Rightarrow> graph" where
  "setScope n s g = g\<lparr>g_nodes := (g_nodes g)(n := (g_nodes g n)\<lparr>n_scope := s\<rparr>)\<rparr>"

text \<open>
  Modelled from the spec: \<^verbatim>\<open>Graph::create\<close> with an operator symbol, an unattached node of
  that kind with one output; the node and its output are returned.
\<close>

definition create :: "string \<Rightarrow> graph \<Rightarrow> (nat \<times> nat) \<times> graph" where
  "create k g =
     (let (n, g1) = alloc_node (blank_node k) g;
          (out, g2) = addOutput n g1
      in ((n, out), g2))"

text \<open>
  Modelled from the spec: \<^verbatim>\<open>Node::insertAfter\<close> and \<^verbatim>\<open>Node::insertBefore\<close>. The new node is
  linked into the block of the anchor, directly after or directly before it; before a
  block's return node means at the end of that block.
\<close>

fun link_nd :: "bool \<Rightarrow> nat \<Rightarrow> nat \<Rightarrow> nd \<Rightarrow> nd"
  and link_blk :: "bool \<Rightarrow> nat \<Rightarrow> nat \<Rightarrow> blk \<Rightarrow> blk"
  and link_nds :: "bool \<Rightarrow> nat \<Rightarrow> nat \<Rightarrow> nd list \<Rightarrow> nd list"
  and link_blks :: "bool \<Rightarrow> nat \<Rightarrow> nat \<Rightarrow> blk list \<Rightarrow> blk list" where
  "link_nd aft new a (Nd i bs) = Nd i (link_blks aft new a bs)"
| "link_blk aft new a (Blk r ns) =
     Blk r (link_nds aft new a ns @ (if \<not> aft \<and> a = r then [Nd new []] else []))"
| "link_nds aft new a [] = []"
| "link_nds aft new a (n # ns) =
     (if nid n = a
      then (if aft then [link_nd aft new a n, Nd new []] else [Nd new [], link_nd aft new a n])
      else [link_nd aft new a n]) @ link_nds aft new a ns"
| "link_blks aft new a [] = []"
| "link_blks aft new a (b # bs) = link_blk aft new a b # link_blks aft new a bs"

definition insertAfter :: "nat \<Rightarrow> nat \<Rightarrow> graph \<Rightarrow> graph" where
  "insertAfter new a g = g\<lparr>g_root := link_blk True new a (g_root g)\<rparr>"

definition insertBefore :: "nat \<Rightarrow> nat \<Rightarrow> graph \<Rightarrow> graph" where
  "insertBefore new a g = g\<lparr>g_root := link_blk False new a (g_root g)\<rparr>"

text \<open>
  Modelled from the spec: \<^verbatim>\<open>Node::destroy\<close>, which unlinks the node (with the blocks it
  owns) from its block and drops its inputs and outputs.
\<close>

fun unlink_nd :: "nat \<Rightarrow> nd \<Rightarrow> nd"
  and unlink_blk :: "nat \<Rightarrow> blk \<Rightarrow> blk"
  and unlink_nds :: "nat \<Rightarrow> nd list \<Rightarrow> nd list"
  and unlink_blks :: "nat \<Rightarrow> blk list \<Rightarrow> blk list" where
  "unlink_nd a (Nd i bs) = Nd i (unlink_blks a bs)"
| "unlink_blk a (Blk r ns) = Blk r (unlink_nds a ns)"
| "unlink_nds a [] = []"
| "unlink_nds a (n # ns) = (if nid n = a then [] else [unlink_nd a n]) @ unlink_nds a ns"
| "unlink_blks a [] = []"
| "unlink_blks a (b # bs) = unlink_blk a b # unlink_blks a bs"

definition destroy :: "nat \<Rightarrow> graph \<Rightarrow> graph" where
  "destroy n g =
     g\<lparr>g_root := unlink_blk n (g_root g),
       g_nodes := (g_nodes g)(n := (g_nodes g n)\<lparr>n_inputs := [], n_outputs := []\<rparr>)\<rparr>"

text \<open>
  Modelled from the spec: \<^verbatim>\<open>Value::replaceAllUsesWith\<close> rewrites the input slot of every
  consumer of the value; \<^verbatim>\<open>Node::replaceInputWith\<close> rewrites the slots of one node only.
\<close>

definition subst_val :: "nat \<Rightarrow> nat \<Rightarrow> nat list \<Rightarrow> nat list" where
  "subst_val v w xs = map (\<lambda>x. if x = v then w else x) xs"

definition replaceAllUsesWith :: "nat \<Rightarrow> nat \<Rightarrow> graph \<Rightarrow> graph" where
  "replaceAllUsesWith v w g =
     g\<lparr>g_nodes := (\<lambda>i. (g_nodes g i)\<lparr>n_inputs := subst_val v w (n_inputs (g_nodes g i))\<rparr>)\<rparr>"

definition replaceInputWith :: "nat \<Rightarrow> nat \<Rightarrow> nat \<Rightarrow> graph \<Rightarrow> graph" where
  "replaceInputWith n v w g =
     g\<lparr>g_nodes := (g_nodes g)(n := (g_nodes g n)\<lparr>n_inputs := subst_val v w (n_inputs (g_nodes g n))\<rparr>)\<rparr>"

text \<open>
  Modelled from the spec: \<^verbatim>\<open>Graph::insertConstant\<close>, a constant-producing node holding the
  value, inserted at the insertion point (directly before the node \<open>ip\<close> that
  \<^verbatim>\<open>WithInsertPoint\<close> names); its output is returned.
\<close>

fun type_of_ivalue :: "ivalue \<Rightarrow> jtype" where
  "type_of_ivalue (IString s) = StringType"
| "type_of_ivalue (IDouble x) = FloatType"
| "type_of_ivalue (IInt i) = IntType"

definition insertConstant :: "ivalue \<Rightarrow> nat \<Rightarrow> graph \<Rightarrow> nat \<times> graph" where
  "insertConstant iv ip g =
     (let (n, g1) = alloc_node ((blank_node kConstant)\<lparr>n_payload := Some iv\<rparr>) g;
          (out, g2) = addOutput n g1;
          g3 = setType out (type_of_ivalue iv) g2
      in (out, insertBefore n ip g3))"

text \<open>
  Modelled from the spec: \<^verbatim>\<open>Graph::createClone\<close> as the passes use it (identity value map,
  blocks not copied): a deep copy of the template's internal structure, with none of the
  template's input or output wiring.
\<close>

definition createClone :: "node \<Rightarrow> graph \<Rightarrow> nat \<times> graph" where
  "createClone tmpl g = alloc_node tmpl g"

section \<open>QuantizerUtils\<close>

subsection \<open>checkIfNodeQuantizable\<close>

definition sig_conv2d :: string where
  "sig_conv2d = ''aten::conv2d(Tensor input, Tensor weight, Tensor? bias=None, int[2] stride=1, int[2] padding=0, int[2] dilation=1, int groups=1) -> Tensor''"

definition sig_relu :: string where
  "sig_relu = ''aten::relu(Tensor self) -> Tensor''"

definition sig_convolution :: string where
  "sig_convolution = ''aten::_convolution(Tensor input, Tensor weight, Tensor? bias, int[] stride, int[] padding, int[] dilation, bool transposed, int[] output_padding, int groups, bool benchmark, bool deterministic, bool cudnn_enabled) -> Tensor''"

definition quantnodeLookup :: "string list" where
  "quantnodeLookup = [sig_conv2d, sig_relu, sig_convolution]"

definition op_identity :: "node \<Rightarrow> string" where
  "op_identity n = n_kind n @ n_overload n"

text \<open>
  Modelled from the spec: \<^verbatim>\<open>OperatorSet::find\<close> of the host IR, the membership test of a
  node's operator identity in a set of operator signatures, by exact match.
\<close>

definition operator_set_find :: "string list \<Rightarrow> node \<Rightarrow> bool" where
  "operator_set_find sigs n = (op_identity n \<in> set sigs)"

definition checkIfNodeQuantizable :: "node \<Rightarrow> bool" where
  "checkIfNodeQuantizable n = operator_set_find quantnodeLookup n"

subsection \<open>Synthesis of the Quant and Dequant nodes\<close>

definition kQuantize :: string where "kQuantize = ''aten::quantize_linear''"
definition kDequantize :: string where "kDequantize = ''aten::dequantize''"

definition insertNodeHelper :: "nat \<Rightarrow> nat \<Rightarrow> bool \<Rightarrow> graph \<Rightarrow> graph" where
  "insertNodeHelper new_n ins_node insert_after g =
     (if insert_after then insertAfter new_n ins_node g else insertBefore new_n ins_node g)"

definition insertQuantNodeParams :: "nat \<Rightarrow> real \<Rightarrow> int \<Rightarrow> graph \<Rightarrow> graph" where
  "insertQuantNodeParams quant scale zero_point g =
     (let (scale_v, g1) = insertConstant (IDouble scale) quant g;
          (zeropoint_v, g2) = insertConstant (IInt zero_point) quant g1;
          g3 = addInput quant scale_v g2
      in addInput quant zeropoint_v g3)"

definition createQuantNode :: "nat \<Rightarrow> nat \<Rightarrow> graph \<Rightarrow> (nat \<times> nat) \<times> graph" where
  "createQuantNode v n g =
     (let ((quant, out), g1) = create kQuantize g;
          g2 = setUniqueName out (uniqueName g1 v @ ''.quant'') g1;
          g3 = setScope quant (n_scope (g_nodes g2 n)) g2
      in ((quant, out), g3))"

definition createDeQuantNode :: "nat \<Rightarrow> nat \<Rightarrow> graph \<Rightarrow> (nat \<times> nat) \<times> graph" where
  "createDeQuantNode v n g =
     (let ((dequant, out), g1) = create kDequantize g;
          g2 = setUniqueName out (uniqueName g1 v @ ''.dequant'') g1;
          g3 = setScope dequant (n_scope (g_nodes g2 n)) g2
      in ((dequant, out), g3))"

text \<open>Insert Quant-Dequant node pair for quantizable node outputs.\<close>

definition addQuantDeQuantNodes :: "nat \<Rightarrow> qparam \<Rightarrow> graph \<Rightarrow> graph" where
  "addQuantDeQuantNodes v qp g =
     (let n = v_node (g_vals g v);
          ((quant, qout), g1) = createQuantNode v n g;
          ((dequant, dqout), g2) = createDeQuantNode v n g1;
          g3 = insertAfter quant n g2;
          g4 = insertAfter dequant quant g3;
          g5 = replaceAllUsesWith v dqout g4;
          g6 = addInput quant v g5;
          g7 = insertQuantNodeParams quant (fst (snd qp)) (snd (snd qp)) g6
      in addInput dequant qout g7)"

text \<open>Insert Quant-Dequant node pair for specific input to node n.\<close>

definition addQuantDeQuantNodesForInput :: "nat \<Rightarrow> nat \<Rightarrow> qparam \<Rightarrow> graph \<Rightarrow> graph" where
  "addQuantDeQuantNodesForInput v n qp g =
     (let ((quant, qout), g1) = createQuantNode v n g;
          ((dequant, dqout), g2) = createDeQuantNode v n g1;
          g3 = insertBefore dequant n g2;
          g4 = insertBefore quant dequant g3;
          g5 = replaceInputWith n v dqout g4;
          g6 = addInput quant v g5;
          g7 = insertQuantNodeParams quant (fst (snd qp)) (snd (snd qp)) g6
      in addInput dequant qout g7)"

subsection \<open>matchQParamDictKeytoObserver\<close>

text \<open>\<^verbatim>\<open>std::unordered_map::emplace\<close>: an entry that exists is kept.\<close>

definition emplace :: "'k \<Rightarrow> 'v \<Rightarrow> ('k \<rightharpoonup> 'v) \<Rightarrow> ('k \<rightharpoonup> 'v)" where
  "emplace k x m = (case m k of None \<Rightarrow> m(k \<mapsto> x) | Some y \<Rightarrow> m)"

text \<open>
  The result is \<open>None\<close> where the code returns false, and the updated value-to-parameter
  map where it returns true. Reading the second input of a node that has fewer than two,
  unwrapping a constant that is not there, and reading a string out of a constant of
  another type are the failures of the code.
\<close>

definition matchQParamDictKeytoObserver ::
  "graph \<Rightarrow> nat \<Rightarrow> (string \<rightharpoonup> qparam) \<Rightarrow> (nat \<rightharpoonup> qparam) \<Rightarrow> error + (nat \<rightharpoonup> qparam) option" where
  "matchQParamDictKeytoObserver g n qparam_dict qparam_value_dict =
     (if n_kind (g_nodes g n) \<noteq> kPythonOp then Inr None
      else case n_inputs (g_nodes g n) of
        v # vname # rest \<Rightarrow>
          (case toIValue g vname of
             None \<Rightarrow> Inl BadOptionalAccess
           | Some (IString valuekey) \<Rightarrow>
               (case qparam_dict valuekey of
                  None \<Rightarrow> Inr None
                | Some qp \<Rightarrow> Inr (Some (emplace v qp qparam_value_dict)))
           | Some _ \<Rightarrow> Inl NotAString)
      | _ \<Rightarrow> Inl IndexOutOfRange)"

section \<open>InsertQuantDequantNodes\<close>

record qstate =
  quantInputs :: "(nat \<times> nat) list"
  quantOutputs :: "nat list"
  valueLookup :: "nat set"
  nodes_to_remove :: "nat list"
  qparam_value_dict :: "nat \<rightharpoonup> qparam"

definition init_qstate :: qstate where
  "init_qstate = \<lparr>quantInputs = [], quantOutputs = [], valueLookup = {}, nodes_to_remove = [],
     qparam_value_dict = Map.empty\<rparr>"

text \<open>\<^verbatim>\<open>blocks_to_visit.push(subblock)\<close> for each block of a node: the last one ends on top.\<close>

definition push_blocks :: "blk list \<Rightarrow> blk list \<Rightarrow> blk list" where
  "push_blocks bs stack = rev bs @ stack"

text \<open>The loop over the inputs of a node \<open>n\<close> that is not a matched observer.\<close>

definition classify_input :: "graph \<Rightarrow> nat \<Rightarrow> nat \<Rightarrow> qstate \<Rightarrow> qstate" where
  "classify_input g n v s =
     (if \<not> is_tensor g v then s
      else if checkIfNodeQuantizable (node_of g v)
      then (if v \<in> valueLookup s then s
            else s\<lparr>valueLookup := insert v (valueLookup s), quantOutputs := quantOutputs s @ [v]\<rparr>)
      else if checkIfNodeQuantizable (g_nodes g n)
      then s\<lparr>quantInputs := quantInputs s @ [(v, n)]\<rparr>
      else s)"

definition visit_inputs :: "graph \<Rightarrow> nat \<Rightarrow> nat list \<Rightarrow> qstate \<Rightarrow> qstate" where
  "visit_inputs g n vs s = fold (classify_input g n) vs s"

text \<open>The body of the loop over the nodes of a block.\<close>

definition visit_node ::
  "graph \<Rightarrow> (string \<rightharpoonup> qparam) \<Rightarrow> nd \<Rightarrow> blk list \<times> qstate \<Rightarrow> error + blk list \<times> qstate" where
  "visit_node g d n ws =
     (let stack = push_blocks (nblocks n) (fst ws); s = snd ws in
      case matchQParamDictKeytoObserver g (nid n) d (qparam_value_dict s) of
        Inl e \<Rightarrow> Inl e
      | Inr (Some m) \<Rightarrow>
          Inr (stack,
               s\<lparr>qparam_value_dict := m,
                 nodes_to_remove := nodes_to_remove s @
                   [nid n, v_node (g_vals g (n_inputs (g_nodes g (nid n)) ! 1))]\<rparr>)
      | Inr None \<Rightarrow> Inr (stack, visit_inputs g (nid n) (n_inputs (g_nodes g (nid n))) s))"

fun visit_nodes ::
  "graph \<Rightarrow> (string \<rightharpoonup> qparam) \<Rightarrow> nd list \<Rightarrow> blk list \<times> qstate \<Rightarrow> error + blk list \<times> qstate" where
  "visit_nodes g d [] ws = Inr ws"
| "visit_nodes g d (n # ns) ws =
     (case visit_node g d n ws of Inl e \<Rightarrow> Inl e | Inr ws' \<Rightarrow> visit_nodes g d ns ws')"

text \<open>The loop over the declared outputs of a block.\<close>

definition classify_output :: "graph \<Rightarrow> nat \<Rightarrow> qstate \<Rightarrow> qstate" where
  "classify_output g v s =
     (if checkIfNodeQuantizable (node_of g v) \<and> is_tensor g v
      then s\<lparr>quantOutputs := quantOutputs s @ [v]\<rparr> else s)"

definition visit_outputs :: "graph \<Rightarrow> nat list \<Rightarrow> qstate \<Rightarrow> qstate" where
  "visit_outputs g vs s = fold (classify_output g) vs s"

lemma visit_nodes_stack:
  "visit_nodes g d ns (stack, s) = Inr (stack', s') \<Longrightarrow>
   stack' = rev (concat (map nblocks ns)) @ stack"
proof (induction ns arbitrary: stack s)
  case Nil
  then show ?case by simp
next
  case (Cons n ns)
  then obtain s1 where
    1: "visit_node g d n (stack, s) = Inr (push_blocks (nblocks n) stack, s1)" and
    2: "visit_nodes g d ns (push_blocks (nblocks n) stack, s1) = Inr (stack', s')"
    by (auto simp: visit_node_def Let_def split: sum.splits option.splits)
  from Cons.IH[OF 2] show ?case by (simp add: push_blocks_def)
qed

lemma size_list_rev: "size_list f (rev xs) = size_list f xs"
  by (induction xs) simp_all

lemma size_sub_blocks: "size_list size (concat (map nblocks ns)) \<le> size_list size ns"
proof (induction ns)
  case Nil
  then show ?case by simp
next
  case (Cons n ns)
  then show ?case by (cases n) simp
qed

text \<open>The worklist loop: pop a block, walk its nodes, then its outputs.\<close>

function traverse ::
  "graph \<Rightarrow> (string \<rightharpoonup> qparam) \<Rightarrow> blk list \<Rightarrow> qstate \<Rightarrow> error + qstate" where
  "traverse g d [] s = Inr s"
| "traverse g d (b # stack) s =
     (case visit_nodes g d (bnodes b) (stack, s) of
        Inl e \<Rightarrow> Inl e
      | Inr (stack', s') \<Rightarrow> traverse g d stack' (visit_outputs g (block_outputs g b) s'))"
  by pat_completeness auto
termination
proof (relation "measure (\<lambda>(g, d, stack, s). size_list size stack)", goal_cases)
  case 1
  show ?case by simp
next
  case (2 g d b stack s x2 stack' s')
  then have "stack' = rev (concat (map nblocks (bnodes b))) @ stack"
    by (auto dest: visit_nodes_stack)
  moreover have "size_list size (concat (map nblocks (bnodes b))) < size b"
    using size_sub_blocks[of "bnodes b"] by (cases b) simp
  ultimately show ?case by (simp add: size_list_rev)
qed

declare traverse.simps [simp del]

definition destroy_all :: "nat list \<Rightarrow> graph \<Rightarrow> graph" where
  "destroy_all ns g = fold destroy ns g"

definition rewrite_output :: "(nat \<rightharpoonup> qparam) \<Rightarrow> nat \<Rightarrow> graph \<Rightarrow> graph" where
  "rewrite_output m ele g = (case m ele of None \<Rightarrow> g | Some qp \<Rightarrow> addQuantDeQuantNodes ele qp g)"

definition rewrite_input :: "(nat \<rightharpoonup> qparam) \<Rightarrow> nat \<times> nat \<Rightarrow> graph \<Rightarrow> graph" where
  "rewrite_input m ele g =
     (case m (fst ele) of None \<Rightarrow> g | Some qp \<Rightarrow> addQuantDeQuantNodesForInput (fst ele) (snd ele) qp g)"

definition rewrite :: "qstate \<Rightarrow> graph \<Rightarrow> graph" where
  "rewrite s g =
     fold (rewrite_input (qparam_value_dict s)) (quantInputs s)
       (fold (rewrite_output (qparam_value_dict s)) (quantOutputs s) g)"

definition InsertQuantDequantNodes :: "graph \<Rightarrow> (string \<rightharpoonup> qparam) \<Rightarrow> error + graph" where
  "InsertQuantDequantNodes g qparam_dict =
     (case traverse g qparam_dict [g_root g] init_qstate of
        Inl e \<Rightarrow> Inl e
      | Inr s \<Rightarrow> Inr (rewrite s (destroy_all (nodes_to_remove s) g)))"

section \<open>InsertObserverNodes\<close>

text \<open>A loop whose body may fail stops at the first failure.\<close>

fun foldE :: "('a \<Rightarrow> 's \<Rightarrow> error + 's) \<Rightarrow> 'a list \<Rightarrow> 's \<Rightarrow> error + 's" where
  "foldE f [] s = Inr s"
| "foldE f (x # xs) s = (case f x s of Inl e \<Rightarrow> Inl e | Inr s' \<Rightarrow> foldE f xs s')"

text \<open>
  The template is a pointer that the caller may have left null (\<open>None\<close>); cloning through
  a null pointer is the failure \<open>NullPointer\<close>.
\<close>

definition addObserverFor :: "nat \<Rightarrow> node option \<Rightarrow> nat \<times> bool \<Rightarrow> graph \<Rightarrow> error + graph" where
  "addObserverFor v original_observer_node insert_info g =
     (let def = fst insert_info;
          (vname, g1) = insertConstant (IString (uniqueName g v)) def g
      in case original_observer_node of
           None \<Rightarrow> Inl NullPointer
         | Some tmpl \<Rightarrow>
             (let (observerNode, g2) = createClone tmpl g1;
                  g3 = insertNodeHelper observerNode def (snd insert_info) g2;
                  (observedValue, g4) = addOutput observerNode g3;
                  g5 = setType observedValue (v_type (g_vals g4 v)) g4;
                  g6 = setUniqueName observedValue (uniqueName g5 v @ ''.observed'') g5;
                  g7 = addInput observerNode v g6
              in Inr (addInput observerNode vname g7)))"

definition outputsNeedToBeObserved :: "node \<Rightarrow> bool" where
  "outputsNeedToBeObserved n = (n_kind n \<noteq> kConstant \<and> n_kind n \<noteq> kPythonOp)"

text \<open>\<^verbatim>\<open>*graph->nodes().begin()\<close>\<close>

definition first_node :: "blk \<Rightarrow> nat" where
  "first_node b = (case bnodes b of [] \<Rightarrow> bret b | n # ns \<Rightarrow> nid n)"

text \<open>The body of the loop over the graph inputs.\<close>

definition observe_input ::
  "node option \<Rightarrow> node option \<Rightarrow> int \<Rightarrow> nat list \<Rightarrow> nat \<Rightarrow> nat \<Rightarrow> graph \<Rightarrow> error + graph" where
  "observe_input activation_observer param_observer param_start_index inputVals insert_node idx g =
     (let observer = (if int idx < param_start_index then activation_observer else param_observer)
      in if observer = None then Inr g
         else (let v = inputVals ! idx
               in if is_tensor g v then addObserverFor v observer (insert_node, False) g
                  else Inr g))"

text \<open>The body of the loop over the nodes of a block, and the worklist loop around it.\<close>

definition observe_node :: "graph \<Rightarrow> bool \<Rightarrow> nd \<Rightarrow> blk list \<times> nat list \<Rightarrow> blk list \<times> nat list" where
  "observe_node g act n ws =
     (if \<not> outputsNeedToBeObserved (g_nodes g (nid n)) then ws
      else (let stack = push_blocks (nblocks n) (fst ws)
            in if \<not> act then (stack, snd ws)
               else (stack, snd ws @ n_outputs (g_nodes g (nid n)))))"

definition observe_nodes :: "graph \<Rightarrow> bool \<Rightarrow> nd list \<Rightarrow> blk list \<times> nat list \<Rightarrow> blk list \<times> nat list" where
  "observe_nodes g act ns ws = fold (observe_node g act) ns ws"

lemma observe_nodes_stack:
  "fst (observe_nodes g act ns ws) =
   rev (concat (map nblocks (filter (\<lambda>n. outputsNeedToBeObserved (g_nodes g (nid n))) ns))) @ fst ws"
  unfolding observe_nodes_def
  by (induction ns arbitrary: ws) (simp_all add: observe_node_def push_blocks_def Let_def)

lemma size_filter_le: "size_list f (filter P xs) \<le> size_list f xs"
  by (induction xs) simp_all

function collect_values :: "graph \<Rightarrow> bool \<Rightarrow> blk list \<Rightarrow> nat list \<Rightarrow> nat list" where
  "collect_values g act [] vals = vals"
| "collect_values g act (b # stack) vals =
     (case observe_nodes g act (bnodes b) (stack, vals) of
        (stack', vals') \<Rightarrow> collect_values g act stack' vals')"
  by pat_completeness auto
termination
proof (relation "measure (\<lambda>(g, act, stack, vals). size_list size stack)", goal_cases)
  case 1
  show ?case by simp
next
  case (2 g act b stack vals stack' vals')
  let ?ns = "filter (\<lambda>n. outputsNeedToBeObserved (g_nodes g (nid n))) (bnodes b)"
  have "stack' = rev (concat (map nblocks ?ns)) @ stack"
    using 2 observe_nodes_stack[of g act "bnodes b" "(stack, vals)"] by (metis fst_conv)
  moreover have "size_list size (concat (map nblocks ?ns)) \<le> size_list size (bnodes b)"
    using size_sub_blocks[of ?ns] size_filter_le[of size _ "bnodes b"] by (rule order_trans)
  moreover have "size_list size (bnodes b) < size b"
    by (cases b) simp
  ultimately show ?case by (simp add: size_list_rev)
qed

declare collect_values.simps [simp del]

definition observe_value :: "node option \<Rightarrow> nat \<Rightarrow> graph \<Rightarrow> error + graph" where
  "observe_value activation_observer v g =
     (if is_tensor g v then addObserverFor v activation_observer (v_node (g_vals g v), True) g
      else Inr g)"

text \<open>
  \<open>n_initial_ivalues\<close> is \<^verbatim>\<open>method->initial_ivalues().size()\<close>, the number of module
  parameters, and the graph is \<^verbatim>\<open>method->graph()\<close>.
\<close>

definition InsertObserverNodes :: "graph \<Rightarrow> nat \<Rightarrow> (string \<rightharpoonup> node) \<Rightarrow> error + graph" where
  "InsertObserverNodes g n_initial_ivalues observerNodeDict =
     (let activation_observer = observerNodeDict ''activation'';
          param_observer = observerNodeDict ''param'';
          inputVals = g_inputs g;
          inputlength = length inputVals;
          param_start_index = int inputlength - int n_initial_ivalues
      in if param_start_index < 0 then Inl AssertionFailed
         else (let insert_node = first_node (g_root g)
               in case foldE (observe_input activation_observer param_observer param_start_index
                                inputVals insert_node) [0..<inputlength] g of
                    Inl e \<Rightarrow> Inl e
                  | Inr g1 \<Rightarrow>
                      (let values_to_observe =
                             collect_values g1 (activation_observer \<noteq> None) [g_root g1] []
                       in foldE (observe_value activation_observer) values_to_observe g1)))"

section \<open>The reserved entry points\<close>

definition PropagateQuantInfo :: "graph \<Rightarrow> error + graph" where
  "PropagateQuantInfo g = Inl (RuntimeError ''Pass not implemented yet!'')"

definition QuantLinting :: "graph \<Rightarrow> error + graph" where
  "QuantLinting g = Inl (RuntimeError ''Pass not implemented yet!'')"

definition FoldQuantNodesIntoInputsOutputs :: "graph \<Rightarrow> error + graph" where
  "FoldQuantNodesIntoInputsOutputs g = Inl (RuntimeError ''Pass not implemented yet!'')"

section \<open>The worklist traversal\<close>

text \<open>
  Both passes walk the blocks with the same worklist loop. \<open>pop_order P stack\<close> is the
  order in which that loop pops blocks when it starts from \<open>stack\<close> and schedules the
  blocks of the nodes that satisfy \<open>P\<close>; \<open>reach_blk P b\<close> are the blocks under \<open>b\<close> that
  can be reached through such nodes.
\<close>

fun reach_nd :: "(nd \<Rightarrow> bool) \<Rightarrow> nd \<Rightarrow> blk list"
  and reach_blk :: "(nd \<Rightarrow> bool) \<Rightarrow> blk \<Rightarrow> blk list"
  and reach_nds :: "(nd \<Rightarrow> bool) \<Rightarrow> nd list \<Rightarrow> blk list"
  and reach_blks :: "(nd \<Rightarrow> bool) \<Rightarrow> blk list \<Rightarrow> blk list" where
  "reach_nd P (Nd i bs) = (if P (Nd i bs) then reach_blks P bs else [])"
| "reach_blk P (Blk r ns) = Blk r ns # reach_nds P ns"
| "reach_nds P [] = []"
| "reach_nds P (n # ns) = reach_nd P n @ reach_nds P ns"
| "reach_blks P [] = []"
| "reach_blks P (b # bs) = reach_blk P b @ reach_blks P bs"

definition scheduled :: "(nd \<Rightarrow> bool) \<Rightarrow> nd list \<Rightarrow> blk list" where
  "scheduled P ns = concat (map nblocks (filter P ns))"

lemma size_scheduled: "size_list size (scheduled P ns) \<le> size_list size ns"
  unfolding scheduled_def
  using size_sub_blocks[of "filter P ns"] size_filter_le[of size P ns] by (rule order_trans)

function pop_order :: "(nd \<Rightarrow> bool) \<Rightarrow> blk list \<Rightarrow> blk list" where
  "pop_order P [] = []"
| "pop_order P (b # stack) = b # pop_order P (rev (scheduled P (bnodes b)) @ stack)"
  by pat_completeness auto
termination
proof (relation "measure (\<lambda>(P, stack). size_list size stack)", goal_cases)
  case 1
  show ?case by simp
next
  case (2 P b stack)
  have "size_list size (bnodes b) < size b" by (cases b) simp
  with size_scheduled[of P "bnodes b"] show ?case by (simp add: size_list_rev)
qed

declare pop_order.simps [simp del]

lemma reach_blks_append: "reach_blks P (xs @ ys) = reach_blks P xs @ reach_blks P ys"
  by (induction xs) simp_all

lemma mset_reach_blks_rev: "mset (reach_blks P (rev xs)) = mset (reach_blks P xs)"
  by (induction xs) (simp_all add: reach_blks_append)

lemma reach_nds_scheduled: "reach_nds P ns = reach_blks P (scheduled P ns)"
proof (induction ns)
  case Nil
  show ?case by (simp add: scheduled_def)
next
  case (Cons n ns)
  then show ?case by (cases n) (simp add: scheduled_def reach_blks_append)
qed

lemma mset_pop_order: "mset (pop_order P stack) = mset (reach_blks P stack)"
proof (induction P stack rule: pop_order.induct)
  case (1 P)
  show ?case by (simp add: pop_order.simps)
next
  case (2 P b stack)
  have "mset (pop_order P (b # stack)) = {#b#} + mset (pop_order P (rev (scheduled P (bnodes b)) @ stack))"
    by (simp add: pop_order.simps)
  also have "\<dots> = {#b#} + mset (reach_blks P (scheduled P (bnodes b))) + mset (reach_blks P stack)"
    using 2 by (simp add: reach_blks_append mset_reach_blks_rev)
  also have "\<dots> = mset (reach_blk P b) + mset (reach_blks P stack)"
    by (cases b) (simp add: reach_nds_scheduled)
  finally show ?case by simp
qed


lemma reach_all:
  "reach_nd (\<lambda>_. True) n = blocks_of_nd n"
  "reach_blk (\<lambda>_. True) b = blocks_of_blk b"
  "reach_nds (\<lambda>_. True) ns = blocks_of_nds ns"
  "reach_blks (\<lambda>_. True) bs = blocks_of_blks bs"
  by (induction n and b and ns and bs rule: blocks_of_nd_blocks_of_blk_blocks_of_nds_blocks_of_blks.induct) simp_all

lemma nodes_of_blocks:
  "mset (nodes_of_nd n) = {#n#} + mset (concat (map bnodes (blocks_of_nd n)))"
  "mset (nodes_of_blk b) = mset (concat (map bnodes (blocks_of_blk b)))"
  "mset (nodes_of_nds ns) = mset ns + mset (concat (map bnodes (blocks_of_nds ns)))"
  "mset (nodes_of_blks bs) = mset (concat (map bnodes (blocks_of_blks bs)))"
  by (induction n and b and ns and bs rule: blocks_of_nd_blocks_of_blk_blocks_of_nds_blocks_of_blks.induct) simp_all

lemma mset_concat_map:
  assumes "mset xs = mset ys"
  shows "mset (concat (map f xs)) = mset (concat (map f ys))"
proof -
  have "mset (concat (map f zs)) = (\<Sum>x\<in>#mset zs. mset (f x))" for zs
    by (induction zs) simp_all
  then show ?thesis using assms by simp
qed


definition node_step :: "graph \<Rightarrow> (string \<rightharpoonup> qparam) \<Rightarrow> nd \<Rightarrow> qstate \<Rightarrow> error + qstate" where
  "node_step g d n s = (case visit_node g d n ([], s) of Inl e \<Rightarrow> Inl e | Inr ws \<Rightarrow> Inr (snd ws))"

definition block_step :: "graph \<Rightarrow> (string \<rightharpoonup> qparam) \<Rightarrow> blk \<Rightarrow> qstate \<Rightarrow> error + qstate" where
  "block_step g d b s =
     (case foldE (node_step g d) (bnodes b) s of
        Inl e \<Rightarrow> Inl e
      | Inr s' \<Rightarrow> Inr (visit_outputs g (block_outputs g b) s'))"

lemma visit_node_split:
  "visit_node g d n (stack, s) =
   (case node_step g d n s of Inl e \<Rightarrow> Inl e | Inr s' \<Rightarrow> Inr (push_blocks (nblocks n) stack, s'))"
  by (simp add: visit_node_def node_step_def Let_def split: sum.splits option.splits)

lemma visit_nodes_split:
  "visit_nodes g d ns (stack, s) =
   (case foldE (node_step g d) ns s of
      Inl e \<Rightarrow> Inl e
    | Inr s' \<Rightarrow> Inr (rev (scheduled (\<lambda>_. True) ns) @ stack, s'))"
proof (induction ns arbitrary: stack s)
  case Nil
  show ?case by (simp add: scheduled_def)
next
  case (Cons n ns)
  show ?case
  proof (cases "node_step g d n s")
    case (Inl e)
    then show ?thesis by (simp add: visit_node_split)
  next
    case (Inr s1)
    then show ?thesis
      by (simp add: visit_node_split Cons.IH push_blocks_def scheduled_def split: sum.splits)
  qed
qed

lemma traverse_fold:
  "traverse g d stack s = foldE (block_step g d) (pop_order (\<lambda>_. True) stack) s"
proof (induction g d stack s rule: traverse.induct)
  case (1 g d s)
  show ?case by (simp add: traverse.simps pop_order.simps)
next
  case (2 g d b stack s)
  show ?case
  proof (cases "foldE (node_step g d) (bnodes b) s")
    case (Inl e)
    then show ?thesis by (simp add: visit_nodes_split block_step_def traverse.simps pop_order.simps)
  next
    case (Inr s1)
    then have v: "visit_nodes g d (bnodes b) (stack, s) =
        Inr (rev (scheduled (\<lambda>_. True) (bnodes b)) @ stack, s1)"
      by (simp add: visit_nodes_split)
    from "2.IH"[OF v refl] v Inr show ?thesis
      by (simp add: block_step_def traverse.simps pop_order.simps)
  qed
qed

definition needs_observing :: "graph \<Rightarrow> nd \<Rightarrow> bool" where
  "needs_observing g n = outputsNeedToBeObserved (g_nodes g (nid n))"

definition node_vals :: "graph \<Rightarrow> bool \<Rightarrow> nd \<Rightarrow> nat list" where
  "node_vals g act n = (if act \<and> needs_observing g n then n_outputs (g_nodes g (nid n)) else [])"

lemma observe_node_split:
  "observe_node g act n (stack, vals) =
   (rev (scheduled (needs_observing g) [n]) @ stack, vals @ node_vals g act n)"
  by (simp add: observe_node_def push_blocks_def scheduled_def node_vals_def needs_observing_def Let_def)

lemma observe_nodes_split:
  "observe_nodes g act ns (stack, vals) =
   (rev (scheduled (needs_observing g) ns) @ stack, vals @ concat (map (node_vals g act) ns))"
proof (induction ns arbitrary: stack vals)
  case Nil
  show ?case by (simp add: observe_nodes_def scheduled_def)
next
  case (Cons n ns)
  have "observe_nodes g act (n # ns) (stack, vals) =
        observe_nodes g act ns (observe_node g act n (stack, vals))"
    by (simp add: observe_nodes_def)
  also have "\<dots> = (rev (scheduled (needs_observing g) ns) @ rev (scheduled (needs_observing g) [n]) @ stack,
       (vals @ node_vals g act n) @ concat (map (node_vals g act) ns))"
    by (simp only: observe_node_split Cons.IH)
  finally show ?case by (simp add: scheduled_def)
qed

lemma collect_values_fold:
  "collect_values g act stack vals =
   vals @ concat (map (node_vals g act) (concat (map bnodes (pop_order (needs_observing g) stack))))"
proof (induction g act stack vals rule: collect_values.induct)
  case (1 g act vals)
  show ?case by (simp add: collect_values.simps pop_order.simps)
next
  case (2 g act b stack vals)
  from "2.IH"[OF observe_nodes_split[symmetric]] show ?case
    by (simp add: observe_nodes_split collect_values.simps pop_order.simps)
qed

section \<open>Properties of the traversal\<close>

definition skipped_are_leaves :: "graph \<Rightarrow> bool" where
  "skipped_are_leaves g =
     list_all (\<lambda>n. needs_observing g n \<or> nblocks n = []) (nodes_of_blk (g_root g))"

lemma reach_leaves:
  "list_all (\<lambda>n. P n \<or> nblocks n = []) (nodes_of_nd n) \<Longrightarrow> reach_nd P n = blocks_of_nd n"
  "list_all (\<lambda>n. P n \<or> nblocks n = []) (nodes_of_blk b) \<Longrightarrow> reach_blk P b = blocks_of_blk b"
  "list_all (\<lambda>n. P n \<or> nblocks n = []) (nodes_of_nds ns) \<Longrightarrow> reach_nds P ns = blocks_of_nds ns"
  "list_all (\<lambda>n. P n \<or> nblocks n = []) (nodes_of_blks bs) \<Longrightarrow> reach_blks P bs = blocks_of_blks bs"
  by (induction n and b and ns and bs rule: blocks_of_nd_blocks_of_blk_blocks_of_nds_blocks_of_blks.induct)
     auto

lemma mset_pop_order_root: "mset (pop_order P [b]) = mset (reach_blk P b)"
  using mset_pop_order[of P "[b]"] by simp

lemma visited_all:
  "mset (concat (map bnodes (pop_order (\<lambda>_. True) [b]))) = mset (nodes_of_blk b)"
proof -
  have "mset (pop_order (\<lambda>_. True) [b]) = mset (blocks_of_blk b)"
    by (simp only: mset_pop_order_root reach_all)
  then have "mset (concat (map bnodes (pop_order (\<lambda>_. True) [b]))) =
      mset (concat (map bnodes (blocks_of_blk b)))"
    by (rule mset_concat_map)
  then show ?thesis by (simp only: nodes_of_blocks(2))
qed

text \<open>
  A graph with control flow: a conditional (node 2) with two blocks, the second of which
  holds a loop (node 4) whose body holds a convolution, followed by a constant.
\<close>

definition nested_graph :: graph where
  "nested_graph =
     \<lparr>g_root = Blk 1 [Nd 2 [Blk 10 [Nd 3 []], Blk 11 [Nd 4 [Blk 12 [Nd 5 []]]]], Nd 6 []],
      g_nodes = (\<lambda>_. blank_node [])
        (0 := (blank_node kParam)\<lparr>n_outputs := [0]\<rparr>,
         1 := (blank_node kReturn)\<lparr>n_inputs := [1]\<rparr>,
         2 := (blank_node ''prim::If'')\<lparr>n_inputs := [0], n_outputs := [1]\<rparr>,
         3 := (blank_node ''aten::relu'')\<lparr>n_inputs := [0], n_outputs := [2]\<rparr>,
         4 := (blank_node ''prim::Loop'')\<lparr>n_inputs := [0], n_outputs := [3]\<rparr>,
         5 := (blank_node ''aten::conv2d'')\<lparr>n_inputs := [0, 0], n_outputs := [4]\<rparr>,
         6 := (blank_node kConstant)\<lparr>n_outputs := [5]\<rparr>),
      g_vals = (\<lambda>_. \<lparr>v_type = TensorType, v_name = [], v_node = 0\<rparr>),
      g_inputs = [0], g_next_node = 13, g_next_val = 6\<rparr>"

text \<open>
  A graph whose only node in the root block is an opaque call with a single input.
\<close>

definition opaque_owner_graph :: graph where
  "opaque_owner_graph =
     \<lparr>g_root = Blk 1 [Nd 2 [Blk 10 [Nd 3 []]]],
      g_nodes = (\<lambda>_. blank_node [])
        (0 := (blank_node kParam)\<lparr>n_outputs := [0]\<rparr>,
         1 := (blank_node kReturn)\<lparr>n_inputs := [1]\<rparr>,
         2 := (blank_node kPythonOp)\<lparr>n_inputs := [0], n_outputs := [1]\<rparr>,
         3 := (blank_node ''aten::relu'')\<lparr>n_inputs := [0], n_outputs := [2]\<rparr>),
      g_vals = (\<lambda>_. \<lparr>v_type = TensorType, v_name = [], v_node = 0\<rparr>),
      g_inputs = [0], g_next_node = 11, g_next_val = 3\<rparr>"

lemma nested_graph_leaves: "skipped_are_leaves nested_graph"
  by (simp add: skipped_are_leaves_def nested_graph_def needs_observing_def
      outputsNeedToBeObserved_def blank_node_def kConstant_def kPythonOp_def kParam_def kReturn_def)

definition observer_input_ok :: "graph \<Rightarrow> nat \<Rightarrow> bool" where
  "observer_input_ok g n =
     (case n_inputs (g_nodes g n) of
        v # vname # rest \<Rightarrow> (case toIValue g vname of Some (IString k) \<Rightarrow> True | _ \<Rightarrow> False)
      | _ \<Rightarrow> False)"

definition malformed_observer :: "graph \<Rightarrow> nat \<Rightarrow> bool" where
  "malformed_observer g n = (n_kind (g_nodes g n) = kPythonOp \<and> \<not> observer_input_ok g n)"

lemma match_fails_iff:
  "(\<exists>e. matchQParamDictKeytoObserver g n d m = Inl e) = malformed_observer g n"
  by (auto simp: matchQParamDictKeytoObserver_def malformed_observer_def observer_input_ok_def
      split: list.splits option.splits ivalue.splits)

lemma node_step_fails_iff:
  "(\<exists>e. node_step g d n s = Inl e) = malformed_observer g (nid n)"
proof -
  have "(\<exists>e. node_step g d n s = Inl e) =
        (\<exists>e. matchQParamDictKeytoObserver g (nid n) d (qparam_value_dict s) = Inl e)"
    by (auto simp: node_step_def visit_node_def Let_def split: sum.splits option.splits)
  then show ?thesis by (simp only: match_fails_iff)
qed

lemma foldE_fails_iff:
  assumes "\<And>x s. (\<exists>e. f x s = Inl e) = B x"
  shows "(\<exists>e. foldE f xs s = Inl e) = (\<exists>x\<in>set xs. B x)"
proof (induction xs arbitrary: s)
  case Nil
  show ?case by simp
next
  case (Cons x xs)
  show ?case
  proof (cases "f x s")
    case (Inl e)
    with assms[of x s] show ?thesis by auto
  next
    case (Inr s')
    with assms[of x s] Cons.IH[of s'] show ?thesis by auto
  qed
qed

lemma block_step_fails_iff:
  "(\<exists>e. block_step g d b s = Inl e) = (\<exists>n\<in>set (bnodes b). malformed_observer g (nid n))"
proof -
  have "(\<exists>e. block_step g d b s = Inl e) = (\<exists>e. foldE (node_step g d) (bnodes b) s = Inl e)"
    by (auto simp: block_step_def split: sum.splits)
  also have "\<dots> = (\<exists>n\<in>set (bnodes b). malformed_observer g (nid n))"
    by (rule foldE_fails_iff) (rule node_step_fails_iff)
  finally show ?thesis .
qed

lemma set_visited_all:
  "set (concat (map bnodes (pop_order (\<lambda>_. True) [b]))) = set (nodes_of_blk b)"
  using visited_all[of b] by (metis set_mset_mset)

lemma traverse_fails_iff:
  "(\<exists>e. traverse g d [g_root g] s = Inl e) = (\<exists>n\<in>set (node_ids g). malformed_observer g n)"
proof -
  have "(\<exists>e. traverse g d [g_root g] s = Inl e) =
        (\<exists>b\<in>set (pop_order (\<lambda>_. True) [g_root g]). \<exists>n\<in>set (bnodes b). malformed_observer g (nid n))"
    unfolding traverse_fold by (rule foldE_fails_iff) (rule block_step_fails_iff)
  also have "\<dots> = (\<exists>n\<in>set (concat (map bnodes (pop_order (\<lambda>_. True) [g_root g]))). malformed_observer g (nid n))"
    by auto
  also have "\<dots> = (\<exists>n\<in>set (node_ids g). malformed_observer g n)"
    by (simp only: set_visited_all node_ids_def) auto
  finally show ?thesis .
qed

text \<open>
  C4: let no constant and no opaque call own a block (blocks belong to control-flow
  nodes). Each pass pops every block under the root exactly once and walks the nodes of a
  popped block in the block's stored order, so the nodes that a pass visits are, counted
  with multiplicity, the nodes under the root at any depth of nesting: none twice, none
  skipped. The first pass collects the outputs of the nodes in that order; the second
  pass is the run of its per-block step over the popped blocks, and it ends before the
  last block only by failing at an opaque call that is not a well-formed observer.
\<close>

theorem traversal_visits_each_node_once:
  assumes lv: "skipped_are_leaves g"
  shows "traverse g d [g_root g] s = foldE (block_step g d) (pop_order (\<lambda>_. True) [g_root g]) s
   \<and> mset (pop_order (\<lambda>_. True) [g_root g]) = mset (blocks_of_blk (g_root g))
   \<and> mset (concat (map bnodes (pop_order (\<lambda>_. True) [g_root g]))) = mset (nodes_of_blk (g_root g))
   \<and> ((\<exists>e. traverse g d [g_root g] s = Inl e) = (\<exists>n\<in>set (node_ids g). malformed_observer g n))
   \<and> collect_values g act [g_root g] [] =
       concat (map (node_vals g act) (concat (map bnodes (pop_order (needs_observing g) [g_root g]))))
   \<and> mset (pop_order (needs_observing g) [g_root g]) = mset (blocks_of_blk (g_root g))
   \<and> mset (concat (map bnodes (pop_order (needs_observing g) [g_root g]))) = mset (nodes_of_blk (g_root g))"
proof -
  have 1: "traverse g d [g_root g] s = foldE (block_step g d) (pop_order (\<lambda>_. True) [g_root g]) s"
    by (rule traverse_fold)
  have 2: "mset (pop_order (\<lambda>_. True) [g_root g]) = mset (blocks_of_blk (g_root g))"
    by (simp only: mset_pop_order_root reach_all)
  have 3: "mset (concat (map bnodes (pop_order (\<lambda>_. True) [g_root g]))) = mset (nodes_of_blk (g_root g))"
    by (rule visited_all)
  have 4: "(\<exists>e. traverse g d [g_root g] s = Inl e) = (\<exists>n\<in>set (node_ids g). malformed_observer g n)"
    by (rule traverse_fails_iff)
  have 5: "collect_values g act [g_root g] [] =
       concat (map (node_vals g act) (concat (map bnodes (pop_order (needs_observing g) [g_root g]))))"
    by (simp add: collect_values_fold)
  from lv have "reach_blk (needs_observing g) (g_root g) = blocks_of_blk (g_root g)"
    unfolding skipped_are_leaves_def by (rule reach_leaves(2))
  then have 6: "mset (pop_order (needs_observing g) [g_root g]) = mset (blocks_of_blk (g_root g))"
    by (simp only: mset_pop_order_root)
  then have "mset (concat (map bnodes (pop_order (needs_observing g) [g_root g]))) =
      mset (concat (map bnodes (blocks_of_blk (g_root g))))"
    by (rule mset_concat_map)
  then have 7: "mset (concat (map bnodes (pop_order (needs_observing g) [g_root g]))) = mset (nodes_of_blk (g_root g))"
    by (simp only: nodes_of_blocks(2))
  show ?thesis
    by (rule conjI[OF 1 conjI[OF 2 conjI[OF 3 conjI[OF 4 conjI[OF 5 conjI[OF 6 7]]]]]])
qed

text \<open>
  C4, at the graph with control flow (a conditional whose second block holds a loop):
  each pass visits the five nodes once each, a block's nodes in order, and the first pass
  collects their outputs in visiting order.
\<close>

theorem traversal_visits_each_node_once_witness:
  "skipped_are_leaves nested_graph
   \<and> map nid (concat (map bnodes (pop_order (\<lambda>_. True) [g_root nested_graph]))) = [2, 6, 4, 5, 3]
   \<and> map nid (concat (map bnodes (pop_order (needs_observing nested_graph) [g_root nested_graph])))
       = [2, 6, 4, 5, 3]
   \<and> mset (concat (map bnodes (pop_order (needs_observing nested_graph) [g_root nested_graph])))
       = mset (nodes_of_blk (g_root nested_graph))
   \<and> mset (concat (map bnodes (pop_order (\<lambda>_. True) [g_root nested_graph])))
       = mset (nodes_of_blk (g_root nested_graph))
   \<and> collect_values nested_graph True [g_root nested_graph] [] = [1, 3, 4, 2]"
proof -
  have h: "skipped_are_leaves nested_graph" by (rule nested_graph_leaves)
  have c: "collect_values nested_graph True [g_root nested_graph] [] = [1, 3, 4, 2]"
    by (simp add: nested_graph_def needs_observing_def observe_nodes_def observe_node_def
      push_blocks_def outputsNeedToBeObserved_def blank_node_def kConstant_def kPythonOp_def
      kParam_def kReturn_def Let_def collect_values.simps)
  have o2: "map nid (concat (map bnodes (pop_order (\<lambda>_. True) [g_root nested_graph]))) = [2, 6, 4, 5, 3]"
    by (simp add: nested_graph_def scheduled_def pop_order.simps)
  have o1: "map nid (concat (map bnodes (pop_order (needs_observing nested_graph) [g_root nested_graph])))
       = [2, 6, 4, 5, 3]"
    by (simp add: nested_graph_def scheduled_def pop_order.simps needs_observing_def
      outputsNeedToBeObserved_def blank_node_def kConstant_def kPythonOp_def kParam_def kReturn_def)
  from traversal_visits_each_node_once[OF h, of Map.empty init_qstate True] h c o1 o2
  show ?thesis by blast
qed

text \<open>
  C10: for a node of kind prim::PythonOp the second pass reads the second input and
  unwraps it as a constant before it looks at the calibration dictionary. So the pass
  fails, whatever the dictionary holds, exactly when some node of the graph is an opaque
  call without a second input that a string constant produces; in particular an opaque
  call with fewer than two inputs, or with a second input that no constant produces,
  fails with the out-of-range read or with the unwrapping of an absent value.
\<close>

theorem pythonop_precondition:
  "((\<exists>e. InsertQuantDequantNodes g d = Inl e) = (\<exists>n\<in>set (node_ids g). malformed_observer g n))
   \<and> (n_kind (g_nodes g n) = kPythonOp \<and>
        (length (n_inputs (g_nodes g n)) < 2 \<or> toIValue g (n_inputs (g_nodes g n) ! 1) = None)
        \<longrightarrow> malformed_observer g n \<and>
            (matchQParamDictKeytoObserver g n d m = Inl IndexOutOfRange \<or>
             matchQParamDictKeytoObserver g n d m = Inl BadOptionalAccess))"
proof -
  have "(\<exists>e. InsertQuantDequantNodes g d = Inl e) = (\<exists>e. traverse g d [g_root g] init_qstate = Inl e)"
    by (auto simp: InsertQuantDequantNodes_def split: sum.splits)
  then have 1: "(\<exists>e. InsertQuantDequantNodes g d = Inl e) = (\<exists>n\<in>set (node_ids g). malformed_observer g n)"
    by (simp only: traverse_fails_iff)
  have 2: "malformed_observer g n \<and>
            (matchQParamDictKeytoObserver g n d m = Inl IndexOutOfRange \<or>
             matchQParamDictKeytoObserver g n d m = Inl BadOptionalAccess)"
    if "n_kind (g_nodes g n) = kPythonOp \<and>
        (length (n_inputs (g_nodes g n)) < 2 \<or> toIValue g (n_inputs (g_nodes g n) ! 1) = None)"
    using that
    by (auto simp: matchQParamDictKeytoObserver_def malformed_observer_def observer_input_ok_def
        split: list.splits option.splits ivalue.splits)
  from 1 2 show ?thesis by blast
qed

text \<open>
  C10, at a graph whose opaque call (node 2) has one input only: the pass fails with the
  out-of-range read, for the empty dictionary as for any other.
\<close>

theorem pythonop_precondition_witness:
  "n_kind (g_nodes opaque_owner_graph 2) = kPythonOp
   \<and> length (n_inputs (g_nodes opaque_owner_graph 2)) < 2
   \<and> malformed_observer opaque_owner_graph 2
   \<and> matchQParamDictKeytoObserver opaque_owner_graph 2 Map.empty Map.empty = Inl IndexOutOfRange
   \<and> InsertQuantDequantNodes opaque_owner_graph Map.empty = Inl IndexOutOfRange"
proof -
  have k: "n_kind (g_nodes opaque_owner_graph 2) = kPythonOp"
    by (simp add: opaque_owner_graph_def blank_node_def)
  have l: "length (n_inputs (g_nodes opaque_owner_graph 2)) < 2"
    by (simp add: opaque_owner_graph_def blank_node_def)
  have m: "matchQParamDictKeytoObserver opaque_owner_graph 2 Map.empty Map.empty = Inl IndexOutOfRange"
    by (simp add: matchQParamDictKeytoObserver_def opaque_owner_graph_def blank_node_def)
  have r: "InsertQuantDequantNodes opaque_owner_graph Map.empty = Inl IndexOutOfRange"
    by (simp add: InsertQuantDequantNodes_def visit_node_def matchQParamDictKeytoObserver_def
        opaque_owner_graph_def blank_node_def init_qstate_def Let_def traverse.simps)
  from pythonop_precondition[of opaque_owner_graph Map.empty 2 Map.empty] k l m r
  show ?thesis by blast
qed


section \<open>Insertion into the ownership tree\<close>

text \<open>
  \<open>block_lists\<close> is the view of a tree as the list of its blocks, each with its return node
  and the identifiers of its nodes in stored order; linking a node changes each of these
  lists by \<open>ins_list\<close>.
\<close>

definition block_view :: "blk \<Rightarrow> nat \<times> nat list" where
  "block_view b = (bret b, map nid (bnodes b))"

definition block_lists :: "blk \<Rightarrow> (nat \<times> nat list) list" where
  "block_lists b = map block_view (blocks_of_blk b)"

fun ins_list :: "bool \<Rightarrow> nat \<Rightarrow> nat \<Rightarrow> nat list \<Rightarrow> nat list" where
  "ins_list aft new a [] = []"
| "ins_list aft new a (x # xs) =
     (if x = a then (if aft then [x, new] else [new, x]) else [x]) @ ins_list aft new a xs"

definition ins_block :: "bool \<Rightarrow> nat \<Rightarrow> nat \<Rightarrow> nat \<times> nat list \<Rightarrow> nat \<times> nat list" where
  "ins_block aft new a rl =
     (fst rl, ins_list aft new a (snd rl) @ (if \<not> aft \<and> a = fst rl then [new] else []))"

lemma nid_link_nd [simp]: "nid (link_nd aft new a n) = nid n"
  by (cases n) simp

lemma map_nid_link_nds: "map nid (link_nds aft new a ns) = ins_list aft new a (map nid ns)"
  by (induction ns) simp_all

lemma blocks_of_link:
  "map block_view (blocks_of_nd (link_nd aft new a n)) = map (ins_block aft new a) (map block_view (blocks_of_nd n))"
  "map block_view (blocks_of_blk (link_blk aft new a b)) = map (ins_block aft new a) (map block_view (blocks_of_blk b))"
  "map block_view (blocks_of_nds (link_nds aft new a ns)) = map (ins_block aft new a) (map block_view (blocks_of_nds ns))"
  "map block_view (blocks_of_blks (link_blks aft new a bs)) = map (ins_block aft new a) (map block_view (blocks_of_blks bs))"
proof (induction n and b and ns and bs rule: blocks_of_nd_blocks_of_blk_blocks_of_nds_blocks_of_blks.induct)
  case (1 i bs)
  then show ?case by simp
next
  case (2 r ns)
  have "block_view (Blk r (link_nds aft new a ns @ (if \<not> aft \<and> a = r then [Nd new []] else []))) =
        ins_block aft new a (block_view (Blk r ns))"
    by (simp add: block_view_def ins_block_def map_nid_link_nds)
  moreover have "blocks_of_nds (xs @ [Nd new []]) = blocks_of_nds xs" for xs
    by (induction xs) simp_all
  ultimately show ?case using 2 by auto
next
  case 3
  show ?case by simp
next
  case (4 n ns)
  then show ?case by (cases aft) auto
next
  case 5
  show ?case by simp
next
  case (6 b bs)
  then show ?case by simp
qed

lemma block_lists_link:
  "block_lists (link_blk aft new a b) = map (ins_block aft new a) (block_lists b)"
  unfolding block_lists_def by (rule blocks_of_link(2))


lemmas prim_defs = alloc_node_def addOutput_def addInput_def setType_def setUniqueName_def
  setScope_def create_def insertAfter_def insertBefore_def insertConstant_def createClone_def
  insertNodeHelper_def uniqueName_def replaceAllUsesWith_def replaceInputWith_def

lemma addObserverFor_effect:
  assumes "v < g_next_val g"
  shows "addObserverFor v (Some tmpl) (def, aft) g = Inr
     (g\<lparr>g_root := link_blk aft (Suc (g_next_node g)) def (link_blk False (g_next_node g) def (g_root g)),
        g_nodes := (g_nodes g)
          (g_next_node g := (blank_node kConstant)\<lparr>n_payload := Some (IString (v_name (g_vals g v))),
                                 n_outputs := [g_next_val g]\<rparr>,
           Suc (g_next_node g) := tmpl\<lparr>n_inputs := [v, g_next_val g], n_outputs := [Suc (g_next_val g)]\<rparr>),
        g_vals := (g_vals g)
          (g_next_val g := \<lparr>v_type = StringType, v_name = [], v_node = g_next_node g\<rparr>,
           Suc (g_next_val g) := \<lparr>v_type = v_type (g_vals g v), v_name = v_name (g_vals g v) @ ''.observed'',
                                  v_node = Suc (g_next_node g)\<rparr>),
        g_next_node := Suc (Suc (g_next_node g)),
        g_next_val := Suc (Suc (g_next_val g))\<rparr>)"
  using assms
  apply (simp add: addObserverFor_def prim_defs Let_def split_def blank_node_def)
  apply (intro conjI impI graph.equality)
  apply (simp_all add: fun_eq_iff)
  done

definition tree_ids_nd :: "nd \<Rightarrow> nat list" where
  "tree_ids_nd n = map nid (nodes_of_nd n) @ map bret (blocks_of_nd n)"
definition tree_ids_nds :: "nd list \<Rightarrow> nat list" where
  "tree_ids_nds ns = map nid (nodes_of_nds ns) @ map bret (blocks_of_nds ns)"
definition tree_ids_blks :: "blk list \<Rightarrow> nat list" where
  "tree_ids_blks bs = map nid (nodes_of_blks bs) @ map bret (blocks_of_blks bs)"
definition tree_ids :: "blk \<Rightarrow> nat list" where
  "tree_ids b = map nid (nodes_of_blk b) @ map bret (blocks_of_blk b)"

lemma self_in_nodes_of_nd: "n \<in> set (nodes_of_nd n)"
  by (cases n) simp

lemma link_absent:
  "a \<notin> set (tree_ids_nd n) \<Longrightarrow> link_nd aft new a n = n"
  "a \<notin> set (tree_ids b) \<Longrightarrow> link_blk aft new a b = b"
  "a \<notin> set (tree_ids_nds ns) \<Longrightarrow> link_nds aft new a ns = ns"
  "a \<notin> set (tree_ids_blks bs) \<Longrightarrow> link_blks aft new a bs = bs"
  by (induction n and b and ns and bs rule: blocks_of_nd_blocks_of_blk_blocks_of_nds_blocks_of_blks.induct)
     (auto simp: tree_ids_nd_def tree_ids_def tree_ids_nds_def tree_ids_blks_def
        intro: self_in_nodes_of_nd image_eqI[where f=nid])

lemma link_nds_append:
  "link_nds aft new a (xs @ ys) = link_nds aft new a xs @ link_nds aft new a ys"
  by (induction xs) simp_all


definition anchored :: "nat \<Rightarrow> nat \<Rightarrow> nd list \<Rightarrow> nd list \<Rightarrow> bool" where
  "anchored a r pre rest =
     (\<forall>new. link_nds False new a pre = pre \<and>
            link_nds False new a rest @ (if a = r then [Nd new []] else []) = Nd new [] # rest)"

lemma link_anchored:
  "anchored a r pre rest \<Longrightarrow> link_blk False new a (Blk r (pre @ rest)) = Blk r (pre @ Nd new [] # rest)"
  by (simp add: link_nds_append anchored_def)

lemma anchored_extend:
  "anchored a r pre rest \<Longrightarrow> k \<noteq> a \<Longrightarrow> anchored a r (pre @ [Nd k []]) rest"
  by (simp add: link_nds_append anchored_def)

lemma anchored_first:
  assumes "distinct (tree_ids b)"
  shows "anchored (first_node b) (bret b) [] (bnodes b)"
proof (cases b)
  case (Blk r ns)
  show ?thesis
  proof (cases ns)
    case Nil
    with Blk show ?thesis by (simp add: anchored_def first_node_def)
  next
    case (Cons n0 rest)
    obtain i bs where n0: "n0 = Nd i bs" by (cases n0)
    from assms Blk Cons n0 have d: "distinct (i # map nid (nodes_of_blks bs) @ map nid (nodes_of_nds rest)
        @ r # map bret (blocks_of_blks bs) @ map bret (blocks_of_nds rest))"
      by (simp add: tree_ids_def)
    then have 1: "i \<notin> set (tree_ids_blks bs)" and 2: "i \<notin> set (tree_ids_nds rest)" and 3: "i \<noteq> r"
      by (auto simp: tree_ids_blks_def tree_ids_nds_def)
    from 1 2 3 Blk Cons n0 show ?thesis
      by (simp add: anchored_def first_node_def link_absent)
  qed
qed

definition add_site :: "nat \<Rightarrow> nat \<times> node \<Rightarrow> graph \<Rightarrow> error + graph" where
  "add_site a st g = addObserverFor (fst st) (Some (snd st)) (a, False) g"

definition const_node :: "ivalue \<Rightarrow> nat \<Rightarrow> node" where
  "const_node iv out = (blank_node kConstant)\<lparr>n_payload := Some iv, n_outputs := [out]\<rparr>"

lemma observe_sites:
  assumes "g_root g = Blk r (pre @ rest)" and "anchored a r pre rest" and "a < g_next_node g"
    and "list_all (\<lambda>st. fst st < g_next_val g) sites"
  shows "\<exists>g1. foldE (add_site a) sites g = Inr g1
     \<and> g_root g1 = Blk r (pre @ map (\<lambda>i. Nd i []) [g_next_node g..<g_next_node g + 2 * length sites] @ rest)
     \<and> g_next_node g1 = g_next_node g + 2 * length sites
     \<and> g_next_val g1 = g_next_val g + 2 * length sites
     \<and> g_inputs g1 = g_inputs g
     \<and> (\<forall>i<g_next_node g. g_nodes g1 i = g_nodes g i)
     \<and> (\<forall>x<g_next_val g. g_vals g1 x = g_vals g x)
     \<and> (\<forall>j<length sites.
           g_nodes g1 (g_next_node g + 2 * j) =
             const_node (IString (v_name (g_vals g (fst (sites ! j))))) (g_next_val g + 2 * j)
         \<and> g_nodes g1 (g_next_node g + 2 * j + 1) =
             (snd (sites ! j))\<lparr>n_inputs := [fst (sites ! j), g_next_val g + 2 * j],
                                n_outputs := [g_next_val g + 2 * j + 1]\<rparr>
         \<and> g_vals g1 (g_next_val g + 2 * j) =
             \<lparr>v_type = StringType, v_name = [], v_node = g_next_node g + 2 * j\<rparr>
         \<and> g_vals g1 (g_next_val g + 2 * j + 1) =
             \<lparr>v_type = v_type (g_vals g (fst (sites ! j))),
              v_name = v_name (g_vals g (fst (sites ! j))) @ ''.observed'',
              v_node = g_next_node g + 2 * j + 1\<rparr>)"
  using assms
proof (induction sites arbitrary: g pre)
  case Nil
  then show ?case by simp
next
  case (Cons st sites)
  let ?k = "g_next_node g" and ?u = "g_next_val g"
  obtain v t where st: "st = (v, t)" by (cases st)
  from Cons.prems st have v: "v < ?u" by simp
  define ga where "ga = g\<lparr>g_root := link_blk False (Suc ?k) a (link_blk False ?k a (g_root g)),
        g_nodes := (g_nodes g)
          (?k := (blank_node kConstant)\<lparr>n_payload := Some (IString (v_name (g_vals g v))),
                                 n_outputs := [?u]\<rparr>,
           Suc ?k := t\<lparr>n_inputs := [v, ?u], n_outputs := [Suc ?u]\<rparr>),
        g_vals := (g_vals g)
          (?u := \<lparr>v_type = StringType, v_name = [], v_node = ?k\<rparr>,
           Suc ?u := \<lparr>v_type = v_type (g_vals g v), v_name = v_name (g_vals g v) @ ''.observed'',
                                  v_node = Suc ?k\<rparr>),
        g_next_node := Suc (Suc ?k),
        g_next_val := Suc (Suc ?u)\<rparr>"
  have step: "add_site a st g = Inr ga"
    unfolding add_site_def st ga_def using addObserverFor_effect[OF v] by simp
  from Cons.prems have ne: "?k \<noteq> a" "Suc ?k \<noteq> a" by simp_all
  have anc1: "anchored a r (pre @ [Nd ?k []]) rest"
    using Cons.prems(2) ne(1) by (rule anchored_extend)
  have anc2: "anchored a r ((pre @ [Nd ?k []]) @ [Nd (Suc ?k) []]) rest"
    using anc1 ne(2) by (rule anchored_extend)
  have root_a: "g_root ga = Blk r (((pre @ [Nd ?k []]) @ [Nd (Suc ?k) []]) @ rest)"
    using link_anchored[OF Cons.prems(2), of ?k] link_anchored[OF anc1, of "Suc ?k"] Cons.prems(1)
    by (simp add: ga_def)
  have nk: "g_next_node ga = Suc (Suc ?k)" and nu: "g_next_val ga = Suc (Suc ?u)"
    by (simp_all add: ga_def)
  have prem3: "a < g_next_node ga" using Cons.prems(3) nk by simp
  have prem4: "list_all (\<lambda>st. fst st < g_next_val ga) sites"
    using Cons.prems(4) nu by (auto simp: list_all_iff)
  from Cons.IH[OF root_a anc2 prem3 prem4] obtain g1 where
    f: "foldE (add_site a) sites ga = Inr g1" and
    rt: "g_root g1 = Blk r (((pre @ [Nd ?k []]) @ [Nd (Suc ?k) []]) @
          map (\<lambda>i. Nd i []) [g_next_node ga..<g_next_node ga + 2 * length sites] @ rest)" and
    k1: "g_next_node g1 = g_next_node ga + 2 * length sites" and
    u1: "g_next_val g1 = g_next_val ga + 2 * length sites" and
    in1: "g_inputs g1 = g_inputs ga" and
    fn: "\<forall>i<g_next_node ga. g_nodes g1 i = g_nodes ga i" and
    fv: "\<forall>x<g_next_val ga. g_vals g1 x = g_vals ga x" and
    js: "\<forall>j<length sites.
           g_nodes g1 (g_next_node ga + 2 * j) =
             const_node (IString (v_name (g_vals ga (fst (sites ! j))))) (g_next_val ga + 2 * j)
         \<and> g_nodes g1 (g_next_node ga + 2 * j + 1) =
             (snd (sites ! j))\<lparr>n_inputs := [fst (sites ! j), g_next_val ga + 2 * j],
                                n_outputs := [g_next_val ga + 2 * j + 1]\<rparr>
         \<and> g_vals g1 (g_next_val ga + 2 * j) =
             \<lparr>v_type = StringType, v_name = [], v_node = g_next_node ga + 2 * j\<rparr>
         \<and> g_vals g1 (g_next_val ga + 2 * j + 1) =
             \<lparr>v_type = v_type (g_vals ga (fst (sites ! j))),
              v_name = v_name (g_vals ga (fst (sites ! j))) @ ''.observed'',
              v_node = g_next_node ga + 2 * j + 1\<rparr>"
    by blast
  have old_vals: "g_vals ga x = g_vals g x" if "x < ?u" for x
    using that by (simp add: ga_def)
  have c1: "foldE (add_site a) (st # sites) g = Inr g1"
    using step f by simp
  have upt: "[?k..<?k + 2 * length (st # sites)] = ?k # Suc ?k # [Suc (Suc ?k)..<Suc (Suc ?k) + 2 * length sites]"
    by (simp add: upt_rec)
  have c2: "g_root g1 = Blk r (pre @ map (\<lambda>i. Nd i []) [?k..<?k + 2 * length (st # sites)] @ rest)"
    unfolding upt using rt nk by simp
  have c3: "g_next_node g1 = ?k + 2 * length (st # sites)" using k1 nk by simp
  have c4: "g_next_val g1 = ?u + 2 * length (st # sites)" using u1 nu by simp
  have c5: "g_inputs g1 = g_inputs g" using in1 by (simp add: ga_def)
  have c6: "\<forall>i<?k. g_nodes g1 i = g_nodes g i"
    using fn nk by (simp add: ga_def)
  have c7: "\<forall>x<?u. g_vals g1 x = g_vals g x"
    using fv nu by (simp add: ga_def)
  have c8: "g_nodes g1 (?k + 2 * j) =
             const_node (IString (v_name (g_vals g (fst ((st # sites) ! j))))) (?u + 2 * j)
         \<and> g_nodes g1 (?k + 2 * j + 1) =
             (snd ((st # sites) ! j))\<lparr>n_inputs := [fst ((st # sites) ! j), ?u + 2 * j],
                                n_outputs := [?u + 2 * j + 1]\<rparr>
         \<and> g_vals g1 (?u + 2 * j) =
             \<lparr>v_type = StringType, v_name = [], v_node = ?k + 2 * j\<rparr>
         \<and> g_vals g1 (?u + 2 * j + 1) =
             \<lparr>v_type = v_type (g_vals g (fst ((st # sites) ! j))),
              v_name = v_name (g_vals g (fst ((st # sites) ! j))) @ ''.observed'',
              v_node = ?k + 2 * j + 1\<rparr>"
    if j: "j < length (st # sites)" for j
  proof (cases j)
    case 0
    have "g_nodes g1 ?k = g_nodes ga ?k" "g_nodes g1 (Suc ?k) = g_nodes ga (Suc ?k)"
      "g_vals g1 ?u = g_vals ga ?u" "g_vals g1 (Suc ?u) = g_vals ga (Suc ?u)"
      using fn fv nk nu by simp_all
    then show ?thesis using 0 st by (simp add: ga_def const_node_def)
  next
    case (Suc j')
    with j have j': "j' < length sites" by simp
    from Cons.prems(4) j' have "fst (sites ! j') < ?u"
      by (auto simp: list_all_iff)
    then have ov: "g_vals ga (fst (sites ! j')) = g_vals g (fst (sites ! j'))"
      by (rule old_vals)
    from js j' have "g_nodes g1 (g_next_node ga + 2 * j') =
             const_node (IString (v_name (g_vals ga (fst (sites ! j'))))) (g_next_val ga + 2 * j')
         \<and> g_nodes g1 (g_next_node ga + 2 * j' + 1) =
             (snd (sites ! j'))\<lparr>n_inputs := [fst (sites ! j'), g_next_val ga + 2 * j'],
                                n_outputs := [g_next_val ga + 2 * j' + 1]\<rparr>
         \<and> g_vals g1 (g_next_val ga + 2 * j') =
             \<lparr>v_type = StringType, v_name = [], v_node = g_next_node ga + 2 * j'\<rparr>
         \<and> g_vals g1 (g_next_val ga + 2 * j' + 1) =
             \<lparr>v_type = v_type (g_vals ga (fst (sites ! j'))),
              v_name = v_name (g_vals ga (fst (sites ! j'))) @ ''.observed'',
              v_node = g_next_node ga + 2 * j' + 1\<rparr>"
      by blast
    then show ?thesis using Suc nk nu ov by simp
  qed
  from c1 c2 c3 c4 c5 c6 c7 c8 show ?case by blast
qed


definition input_observer :: "graph \<Rightarrow> nat \<Rightarrow> (string \<rightharpoonup> node) \<Rightarrow> nat \<Rightarrow> node option" where
  "input_observer g np dict idx =
     (if int idx < int (length (g_inputs g)) - int np then dict ''activation'' else dict ''param'')"

definition input_site :: "graph \<Rightarrow> nat \<Rightarrow> (string \<rightharpoonup> node) \<Rightarrow> nat \<Rightarrow> (nat \<times> node) list" where
  "input_site g np dict idx =
     (case input_observer g np dict idx of
        None \<Rightarrow> []
      | Some t \<Rightarrow> (if is_tensor g (g_inputs g ! idx) then [(g_inputs g ! idx, t)] else []))"

definition input_sites :: "graph \<Rightarrow> nat \<Rightarrow> (string \<rightharpoonup> node) \<Rightarrow> (nat \<times> node) list" where
  "input_sites g np dict = concat (map (input_site g np dict) [0..<length (g_inputs g)])"

lemma add_site_frame:
  assumes "fst st < g_next_val g" and "add_site a st g = Inr g'"
  shows "g_next_val g \<le> g_next_val g'" and "\<forall>x<g_next_val g. g_vals g' x = g_vals g x"
  using assms addObserverFor_effect[OF assms(1), of "snd st" a False]
  by (auto simp: add_site_def)

lemma add_site_total:
  assumes "fst st < g_next_val g"
  shows "\<exists>g'. add_site a st g = Inr g'"
  using addObserverFor_effect[OF assms, of "snd st" a False] by (simp add: add_site_def)

lemma input_loop_sites:
  assumes "\<forall>idx\<in>set idxs. idx < length (g_inputs g0)"
    and "\<forall>v\<in>set (g_inputs g0). v < g_next_val g \<and> g_vals g v = g_vals g0 v"
  shows "foldE (observe_input (dict ''activation'') (dict ''param'')
                 (int (length (g_inputs g0)) - int np) (g_inputs g0) a) idxs g =
         foldE (add_site a) (concat (map (input_site g0 np dict) idxs)) g"
  using assms
proof (induction idxs arbitrary: g)
  case Nil
  show ?case by simp
next
  case (Cons idx idxs)
  let ?v = "g_inputs g0 ! idx"
  from Cons.prems have vin: "?v \<in> set (g_inputs g0)" by simp
  with Cons.prems have vb: "?v < g_next_val g" and ve: "g_vals g ?v = g_vals g0 ?v" by blast+
  then have ten: "is_tensor g ?v = is_tensor g0 ?v" by (simp add: is_tensor_def)
  show ?case
  proof (cases "input_site g0 np dict idx")
    case Nil
    then have "observe_input (dict ''activation'') (dict ''param'')
                 (int (length (g_inputs g0)) - int np) (g_inputs g0) a idx g = Inr g"
      by (auto simp: observe_input_def input_site_def input_observer_def ten Let_def
          split: option.splits if_splits)
    with Nil Cons.IH[of g] Cons.prems show ?thesis by simp
  next
    case (Cons st rest)
    then obtain t where st: "input_site g0 np dict idx = [(?v, t)]"
      and ob: "input_observer g0 np dict idx = Some t" and t0: "is_tensor g0 ?v"
      by (auto simp: input_site_def split: option.splits if_splits)
    have step: "observe_input (dict ''activation'') (dict ''param'')
                 (int (length (g_inputs g0)) - int np) (g_inputs g0) a idx g = add_site a (?v, t) g"
      using ob t0 ten by (auto simp: observe_input_def input_observer_def add_site_def Let_def)
    from add_site_total[of "(?v, t)" g a] vb obtain g' where g': "add_site a (?v, t) g = Inr g'"
      by auto
    have "\<forall>v\<in>set (g_inputs g0). v < g_next_val g' \<and> g_vals g' v = g_vals g0 v"
      using add_site_frame[OF _ g'] vb Cons.prems(2) by fastforce
    with Cons.IH[of g'] Cons.prems(1) have
      "foldE (observe_input (dict ''activation'') (dict ''param'')
                 (int (length (g_inputs g0)) - int np) (g_inputs g0) a) idxs g' =
         foldE (add_site a) (concat (map (input_site g0 np dict) idxs)) g'"
      by simp
    then show ?thesis using step g' st by simp
  qed
qed


definition wf_graph :: "graph \<Rightarrow> bool" where
  "wf_graph g =
     (distinct (tree_ids (g_root g))
      \<and> list_all (\<lambda>i. i < g_next_node g) (tree_ids (g_root g))
      \<and> list_all (\<lambda>v. v < g_next_val g) (g_inputs g)
      \<and> list_all (\<lambda>i. list_all (\<lambda>v. v < g_next_val g) (n_inputs (g_nodes g i) @ n_outputs (g_nodes g i)))
           [0..<g_next_node g]
      \<and> list_all (\<lambda>v. v_node (g_vals g v) < g_next_node g) [0..<g_next_val g])"

lemma reach_subset:
  "set (reach_nd P n) \<subseteq> set (blocks_of_nd n)"
  "set (reach_blk P b) \<subseteq> set (blocks_of_blk b)"
  "set (reach_nds P ns) \<subseteq> set (blocks_of_nds ns)"
  "set (reach_blks P bs) \<subseteq> set (blocks_of_blks bs)"
  by (induction n and b and ns and bs rule: blocks_of_nd_blocks_of_blk_blocks_of_nds_blocks_of_blks.induct)
     auto

lemma set_nodes_of_blocks: "set (concat (map bnodes (blocks_of_blk b))) = set (nodes_of_blk b)"
  using nodes_of_blocks(2)[of b] by (metis set_mset_mset)

lemma visited_subset:
  "set (concat (map bnodes (pop_order P [b]))) \<subseteq> set (nodes_of_blk b)"
proof -
  have "set (pop_order P [b]) \<subseteq> set (blocks_of_blk b)"
    using mset_pop_order_root[of P b] reach_subset(2)[of P b] by (metis set_mset_mset)
  then have "set (concat (map bnodes (pop_order P [b]))) \<subseteq> set (concat (map bnodes (blocks_of_blk b)))"
    by auto
  then show ?thesis by (simp only: set_nodes_of_blocks)
qed

lemma collect_values_subset:
  "set (collect_values g act [g_root g] []) \<subseteq> (\<Union>i\<in>set (node_ids g). set (n_outputs (g_nodes g i)))"
proof -
  have "set (collect_values g act [g_root g] []) \<subseteq>
        (\<Union>n\<in>set (concat (map bnodes (pop_order (needs_observing g) [g_root g]))). set (n_outputs (g_nodes g (nid n))))"
    unfolding collect_values_fold by (auto simp: node_vals_def split: if_splits)
  also have "\<dots> \<subseteq> (\<Union>n\<in>set (nodes_of_blk (g_root g)). set (n_outputs (g_nodes g (nid n))))"
    using visited_subset[of "needs_observing g" "g_root g"] by blast
  finally show ?thesis by (auto simp: node_ids_def)
qed

lemma observe_values_total:
  assumes "list_all (\<lambda>v. v < g_next_val g) vs"
  shows "\<exists>g'. foldE (observe_value (Some t)) vs g = Inr g'
     \<and> g_next_node g \<le> g_next_node g' \<and> g_next_val g \<le> g_next_val g'
     \<and> g_inputs g' = g_inputs g
     \<and> (\<forall>i<g_next_node g. g_nodes g' i = g_nodes g i)
     \<and> (\<forall>x<g_next_val g. g_vals g' x = g_vals g x)"
  using assms
proof (induction vs arbitrary: g)
  case Nil
  then show ?case by simp
next
  case (Cons v vs)
  then have v: "v < g_next_val g" by simp
  obtain ga where ga: "observe_value (Some t) v g = Inr ga"
    and k: "g_next_node g \<le> g_next_node ga" and u: "g_next_val g \<le> g_next_val ga"
    and i: "g_inputs ga = g_inputs g"
    and fn: "\<forall>i<g_next_node g. g_nodes ga i = g_nodes g i"
    and fv: "\<forall>x<g_next_val g. g_vals ga x = g_vals g x"
    using addObserverFor_effect[OF v, of t "v_node (g_vals g v)" True]
    by (cases "is_tensor g v") (auto simp: observe_value_def)
  from Cons.prems u have "list_all (\<lambda>v. v < g_next_val ga) vs"
    by (auto simp: list_all_iff)
  from Cons.IH[OF this] obtain g' where
    "foldE (observe_value (Some t)) vs ga = Inr g'"
    "g_next_node ga \<le> g_next_node g'" "g_next_val ga \<le> g_next_val g'"
    "g_inputs g' = g_inputs ga"
    "\<forall>i<g_next_node ga. g_nodes g' i = g_nodes ga i"
    "\<forall>x<g_next_val ga. g_vals g' x = g_vals ga x"
    by blast
  with ga k u i fn fv show ?case by auto
qed

lemma nodes_of_nds_append: "nodes_of_nds (xs @ ys) = nodes_of_nds xs @ nodes_of_nds ys"
  by (induction xs) simp_all

lemma nodes_of_leaves: "nodes_of_nds (map (\<lambda>i. Nd i []) is) = map (\<lambda>i. Nd i []) is"
  by (induction "is") simp_all


lemma first_node_in_tree: "first_node b \<in> set (tree_ids b)"
proof (cases b)
  case (Blk r ns)
  then show ?thesis
    by (cases ns) (auto simp: first_node_def tree_ids_def intro: self_in_nodes_of_nd image_eqI[where f=nid])
qed

lemma collect_values_inactive: "collect_values g False stack vals = vals"
  by (simp add: collect_values_fold node_vals_def)

lemma input_sites_bounded:
  assumes "list_all (\<lambda>v. v < u) (g_inputs g)"
  shows "list_all (\<lambda>st. fst st < u) (input_sites g np dict)"
  using assms
  by (auto simp: input_sites_def input_site_def list_all_iff split: option.splits if_splits)

lemma ins_list_append:
  "ins_list aft new a (xs @ ys) = ins_list aft new a xs @ ins_list aft new a ys"
  by (induction xs) simp_all

lemma filter_ins_list: "\<not> P new \<Longrightarrow> filter P (ins_list aft new a xs) = filter P xs"
  by (induction xs) simp_all

lemma set_ins_list_sub: "set (ins_list aft new a xs) \<subseteq> insert new (set xs)"
  by (induction xs) auto

text \<open>
  The list \<open>ids\<close> of a block starts with nodes that are all new (\<open>k\<close> or above), among
  them the \<open>c\<close> nodes \<open>k, \<dots>, k + c - 1\<close> in this order, and the nodes that the block had
  before (\<open>old\<close>, all below \<open>k\<close>) come after them, in their order.
\<close>

definition front :: "nat \<Rightarrow> nat \<Rightarrow> nat list \<Rightarrow> nat list \<Rightarrow> bool" where
  "front k c old ids =
     (\<exists>A B. ids = A @ B \<and> filter (\<lambda>i. i < k + c) A = [k..<k + c] \<and> (\<forall>i\<in>set A. k \<le> i)
        \<and> filter (\<lambda>i. i < k) B = old)"

lemma front_ins:
  assumes f: "front k c old ids" and new: "k + c \<le> new" and e: "set E \<subseteq> {new}"
  shows "front k c old (ins_list aft new a ids @ E)"
proof -
  from f obtain A B where ids: "ids = A @ B" and a: "filter (\<lambda>i. i < k + c) A = [k..<k + c]"
    and ak: "\<forall>i\<in>set A. k \<le> i" and b: "filter (\<lambda>i. i < k) B = old"
    unfolding front_def by blast
  let ?A = "ins_list aft new a A" and ?B = "ins_list aft new a B @ E"
  have 1: "ins_list aft new a ids @ E = ?A @ ?B"
    by (simp add: ids ins_list_append)
  have 2: "filter (\<lambda>i. i < k + c) ?A = [k..<k + c]"
    using new a by (simp add: filter_ins_list)
  have 3: "\<forall>i\<in>set ?A. k \<le> i"
    using ak new set_ins_list_sub[of aft new a A] by auto
  have "filter (\<lambda>i. i < k) E = []" using e new by (auto simp: filter_empty_conv)
  then have 4: "filter (\<lambda>i. i < k) ?B = old"
    using new b by (simp add: filter_ins_list)
  from 1 2 3 4 show ?thesis unfolding front_def by blast
qed

lemma root_ids_link:
  "map nid (bnodes (link_blk aft new a b)) =
     ins_list aft new a (map nid (bnodes b)) @ (if \<not> aft \<and> a = bret b then [new] else [])"
  "bret (link_blk aft new a b) = bret b"
  by (cases b; simp add: map_nid_link_nds)+

lemma observe_value_root:
  assumes "v < g_next_val h" and "observe_value (Some t) v h = Inr h'"
  shows "g_root h' = g_root h \<and> g_next_node h' = g_next_node h \<and> g_vals h' = g_vals h
           \<and> g_next_val h' = g_next_val h
         \<or> g_root h' = link_blk True (Suc (g_next_node h)) (v_node (g_vals h v))
                         (link_blk False (g_next_node h) (v_node (g_vals h v)) (g_root h))
           \<and> g_next_node h' = Suc (Suc (g_next_node h))
           \<and> g_next_val h' = Suc (Suc (g_next_val h))
           \<and> (\<forall>x<g_next_val h. g_vals h' x = g_vals h x)"
  using assms addObserverFor_effect[OF assms(1), of t "v_node (g_vals h v)" True]
  by (cases "is_tensor h v") (auto simp: observe_value_def)

lemma observe_values_front:
  "foldE (observe_value (Some t)) vs h = Inr g' \<Longrightarrow> list_all (\<lambda>v. v < g_next_val h) vs \<Longrightarrow>
   front k c old (map nid (bnodes (g_root h))) \<Longrightarrow> k + c \<le> g_next_node h \<Longrightarrow>
   front k c old (map nid (bnodes (g_root g'))) \<and> bret (g_root g') = bret (g_root h)"
proof (induction vs arbitrary: h)
  case Nil
  then show ?case by simp
next
  case (Cons v vs)
  from Cons.prems(1) obtain h' where 1: "observe_value (Some t) v h = Inr h'"
    and 2: "foldE (observe_value (Some t)) vs h' = Inr g'"
    by (auto split: sum.splits)
  from Cons.prems(2) have v: "v < g_next_val h" by simp
  let ?a = "v_node (g_vals h v)"
  have f1: "front k c old (map nid (bnodes (link_blk False (g_next_node h) ?a (g_root h))))"
    unfolding root_ids_link using Cons.prems(3,4) by (intro front_ins) auto
  have f2: "front k c old (map nid (bnodes (link_blk True (Suc (g_next_node h)) ?a
              (link_blk False (g_next_node h) ?a (g_root h)))))"
    unfolding root_ids_link(1)[of True] using f1 Cons.prems(4) by (intro front_ins) auto
  from observe_value_root[OF v 1] f2 Cons.prems(3,4)
  have a: "front k c old (map nid (bnodes (g_root h')))" and b: "k + c \<le> g_next_node h'"
    and r: "bret (g_root h') = bret (g_root h)" and u: "g_next_val h \<le> g_next_val h'"
    by (auto simp: root_ids_link(2))
  from Cons.prems(2) u have "list_all (\<lambda>v. v < g_next_val h') vs"
    by (auto simp: list_all_iff)
  from Cons.IH[OF 2 this a b] r show ?case by simp
qed

lemma tree_ids_leaves: "tree_ids_nds (map (\<lambda>i. Nd i []) is) = is"
  by (induction "is") (simp_all add: tree_ids_nds_def)

lemma link_leaves:
  "a \<notin> set is \<Longrightarrow>
   link_blk aft new a (Blk r (map (\<lambda>i. Nd i []) is @ rest)) =
   Blk r (map (\<lambda>i. Nd i []) is @ link_nds aft new a rest @ (if \<not> aft \<and> a = r then [Nd new []] else []))"
  by (simp add: link_nds_append link_absent(3) tree_ids_leaves)

lemma observe_values_prefix:
  "foldE (observe_value (Some t)) vs h = Inr g' \<Longrightarrow> \<forall>v\<in>set vs. v < u \<Longrightarrow> u \<le> g_next_val h \<Longrightarrow>
   \<forall>x<u. g_vals h x = g_vals g0 x \<Longrightarrow> \<forall>x<u. v_node (g_vals g0 x) \<notin> set is \<Longrightarrow>
   g_root h = Blk r (map (\<lambda>i. Nd i []) is @ rest) \<Longrightarrow>
   \<exists>rest'. g_root g' = Blk r (map (\<lambda>i. Nd i []) is @ rest')"
proof (induction vs arbitrary: h rest)
  case Nil
  then show ?case by simp
next
  case (Cons v vs)
  from Cons.prems(1) obtain h' where 1: "observe_value (Some t) v h = Inr h'"
    and 2: "foldE (observe_value (Some t)) vs h' = Inr g'"
    by (auto split: sum.splits)
  from Cons.prems(2,3) have v: "v < g_next_val h" and vu: "v < u" by auto
  let ?a = "v_node (g_vals h v)"
  from Cons.prems(4,5) vu have a: "?a \<notin> set is" by simp
  have "\<exists>rest1. link_blk True (Suc (g_next_node h)) ?a
              (link_blk False (g_next_node h) ?a (g_root h)) = Blk r (map (\<lambda>i. Nd i []) is @ rest1)"
    by (simp only: Cons.prems(6) link_leaves[OF a]) blast
  with observe_value_root[OF v 1] Cons.prems(3,4,6)
  obtain rest1 where r: "g_root h' = Blk r (map (\<lambda>i. Nd i []) is @ rest1)"
    and u: "u \<le> g_next_val h'" and f: "\<forall>x<u. g_vals h' x = g_vals g0 x"
    by auto
  from Cons.IH[OF 2 _ u f Cons.prems(5) r] Cons.prems(2) show ?case by simp
qed


lemma own_nodes: "set ns \<subseteq> set (nodes_of_nds ns)"
  by (induction ns) (auto intro: self_in_nodes_of_nd)


text \<open>
  C5 (as amended): the boundary between the external inputs and the module parameters is
  the number of graph inputs minus the number of parameters. Each tensor-typed input
  before the boundary is observed with a clone of the template stored under the key
  "activation", each tensor-typed input at or after it with a clone of the template
  stored under the key "param" (not "parameter"); an input whose template is absent is
  skipped and the pass does not fail. For the \<open>j\<close>-th observed input the name constant
  and the observer are the new nodes \<open>2j\<close> and \<open>2j + 1\<close>; all of them stand at the start
  of the root block, in the order of the inputs, when the loop over the inputs is done.
  In the graph that the pass returns they are as they were made and they are in the root
  block before every node that the block had, in the same order, with only nodes that the
  pass made among them; when the templates are opaque calls, so that the pass does not
  observe the observers, they are exactly the first nodes of the root block. Without an
  "activation" template the later part of the pass adds nothing.
\<close>

theorem input_observers_partitioned:
  assumes wf: "wf_graph g" and np: "np \<le> length (g_inputs g)"
  shows "\<exists>g1 g'.
      InsertObserverNodes g np dict = Inr g'
    \<and> foldE (add_site (first_node (g_root g))) (input_sites g np dict) g = Inr g1
    \<and> g_root g1 = Blk (bret (g_root g))
         (map (\<lambda>i. Nd i []) [g_next_node g..<g_next_node g + 2 * length (input_sites g np dict)]
          @ bnodes (g_root g))
    \<and> (\<forall>j<length (input_sites g np dict).
          g_nodes g' (g_next_node g + 2 * j) =
            const_node (IString (uniqueName g (fst (input_sites g np dict ! j)))) (g_next_val g + 2 * j)
        \<and> g_nodes g' (g_next_node g + 2 * j + 1) =
            (snd (input_sites g np dict ! j))
              \<lparr>n_inputs := [fst (input_sites g np dict ! j), g_next_val g + 2 * j],
               n_outputs := [g_next_val g + 2 * j + 1]\<rparr>)
    \<and> (\<forall>i<g_next_node g. g_nodes g' i = g_nodes g i)
    \<and> (dict ''activation'' = None \<longrightarrow> g' = g1)
    \<and> bret (g_root g') = bret (g_root g)
    \<and> front (g_next_node g) (2 * length (input_sites g np dict)) (map nid (bnodes (g_root g)))
          (map nid (bnodes (g_root g')))
    \<and> ((\<forall>st\<in>set (input_sites g np dict). n_kind (snd st) = kPythonOp) \<longrightarrow>
          (\<exists>rest. g_root g' = Blk (bret (g_root g))
             (map (\<lambda>i. Nd i []) [g_next_node g..<g_next_node g + 2 * length (input_sites g np dict)]
              @ rest)))"
proof -
  let ?a = "first_node (g_root g)" and ?sites = "input_sites g np dict"
  let ?k = "g_next_node g" and ?u = "g_next_val g" and ?m = "length (input_sites g np dict)"
  from wf have d: "distinct (tree_ids (g_root g))"
    and idb: "list_all (\<lambda>i. i < ?k) (tree_ids (g_root g))"
    and inb: "list_all (\<lambda>v. v < ?u) (g_inputs g)"
    and iob: "list_all (\<lambda>i. list_all (\<lambda>v. v < ?u) (n_inputs (g_nodes g i) @ n_outputs (g_nodes g i))) [0..<?k]"
    by (simp_all add: wf_graph_def)
  have root: "g_root g = Blk (bret (g_root g)) ([] @ bnodes (g_root g))" by simp
  have anc: "anchored ?a (bret (g_root g)) [] (bnodes (g_root g))"
    using d by (rule anchored_first)
  have ab: "?a < ?k"
    using idb first_node_in_tree[of "g_root g"] by (auto simp: list_all_iff)
  have sb: "list_all (\<lambda>st. fst st < ?u) ?sites"
    using inb by (rule input_sites_bounded)
  from observe_sites[OF root anc ab sb] obtain g1 where
    f1: "foldE (add_site ?a) ?sites g = Inr g1" and
    rt: "g_root g1 = Blk (bret (g_root g)) (map (\<lambda>i. Nd i []) [?k..<?k + 2 * ?m] @ bnodes (g_root g))" and
    k1: "g_next_node g1 = ?k + 2 * ?m" and
    u1: "g_next_val g1 = ?u + 2 * ?m" and
    fn: "\<forall>i<?k. g_nodes g1 i = g_nodes g i" and
    fv: "\<forall>x<?u. g_vals g1 x = g_vals g x" and
    js: "\<forall>j<?m.
           g_nodes g1 (?k + 2 * j) =
             const_node (IString (v_name (g_vals g (fst (?sites ! j))))) (?u + 2 * j)
         \<and> g_nodes g1 (?k + 2 * j + 1) =
             (snd (?sites ! j))\<lparr>n_inputs := [fst (?sites ! j), ?u + 2 * j],
                                n_outputs := [?u + 2 * j + 1]\<rparr>"
    by auto
  have loop: "foldE (observe_input (dict ''activation'') (dict ''param'')
                 (int (length (g_inputs g)) - int np) (g_inputs g) ?a) [0..<length (g_inputs g)] g = Inr g1"
    using input_loop_sites[of "[0..<length (g_inputs g)]" g g dict np ?a] inb f1
    by (simp add: input_sites_def list_all_iff)
  have pass: "InsertObserverNodes g np dict =
        foldE (observe_value (dict ''activation''))
          (collect_values g1 (dict ''activation'' \<noteq> None) [g_root g1] []) g1"
    using np loop by (simp add: InsertObserverNodes_def Let_def)
  have old: "filter (\<lambda>i. i < ?k) (map nid (bnodes (g_root g))) = map nid (bnodes (g_root g))"
  proof -
    have "set (bnodes (g_root g)) \<subseteq> set (nodes_of_blk (g_root g))"
      using own_nodes[of "bnodes (g_root g)"] by (cases "g_root g") simp
    with idb show ?thesis by (auto simp: tree_ids_def list_all_iff filter_id_conv)
  qed
  have fr1: "front ?k (2 * ?m) (map nid (bnodes (g_root g))) (map nid (bnodes (g_root g1)))"
    unfolding front_def
  proof (intro exI conjI)
    show "map nid (bnodes (g_root g1)) = [?k..<?k + 2 * ?m] @ map nid (bnodes (g_root g))"
      by (simp add: rt comp_def)
    show "filter (\<lambda>i. i < ?k + 2 * ?m) [?k..<?k + 2 * ?m] = [?k..<?k + 2 * ?m]"
      by (simp add: filter_id_conv)
    show "\<forall>i\<in>set [?k..<?k + 2 * ?m]. ?k \<le> i" by simp
    show "filter (\<lambda>i. i < ?k) (map nid (bnodes (g_root g))) = map nid (bnodes (g_root g))"
      by (rule old)
  qed
  show ?thesis
  proof (cases "dict ''activation''")
    case None
    then have "InsertObserverNodes g np dict = Inr g1"
      using pass by (simp add: collect_values_inactive)
    with f1 rt fn js fr1 show ?thesis by (auto simp: uniqueName_def)
  next
    case (Some t)
    let ?vs = "collect_values g1 True [g_root g1] []"
    have news: "set (node_ids g1) = {?k..<?k + 2 * ?m} \<union> set (node_ids g)"
      by (cases "g_root g") (auto simp: node_ids_def rt nodes_of_nds_append nodes_of_leaves)
    have outs: "v < g_next_val g1" if i: "i \<in> set (node_ids g1)" and v: "v \<in> set (n_outputs (g_nodes g1 i))" for i v
    proof (cases "i < ?k")
      case True
      with fn v have "v \<in> set (n_outputs (g_nodes g i))" by simp
      with iob True have "v < ?u" by (auto simp: list_all_iff)
      then show ?thesis by (simp add: u1)
    next
      case False
      with i news have r: "?k \<le> i" "i < ?k + 2 * ?m"
        using idb by (auto simp: node_ids_def tree_ids_def list_all_iff)
      define j where "j = (i - ?k) div 2"
      from r have j: "j < ?m" and ij: "i = ?k + 2 * j \<or> i = ?k + 2 * j + 1"
        unfolding j_def by presburger+
      from ij js j v show ?thesis
        by (auto simp: const_node_def u1)
    qed
    have "list_all (\<lambda>v. v < g_next_val g1) ?vs"
      using collect_values_subset[of g1 True] outs by (auto simp: list_all_iff)
    then have vsb: "list_all (\<lambda>v. v < g_next_val g1) ?vs" .
    from observe_values_total[OF this, of t] obtain g' where
      r: "foldE (observe_value (Some t)) ?vs g1 = Inr g'" and
      fn': "\<forall>i<g_next_node g1. g_nodes g' i = g_nodes g1 i"
      by blast
    have fr: "front ?k (2 * ?m) (map nid (bnodes (g_root g))) (map nid (bnodes (g_root g')))"
      and br: "bret (g_root g') = bret (g_root g)"
      using observe_values_front[OF r vsb fr1] by (simp_all add: k1 rt)
    have px: "\<exists>rest. g_root g' = Blk (bret (g_root g)) (map (\<lambda>i. Nd i []) [?k..<?k + 2 * ?m] @ rest)"
      if tk: "\<forall>st\<in>set ?sites. n_kind (snd st) = kPythonOp"
    proof -
      have olds: "v < ?u" if v: "v \<in> set ?vs" for v
      proof -
        from v obtain n where n: "n \<in> set (concat (map bnodes (pop_order (needs_observing g1) [g_root g1])))"
          and vn: "v \<in> set (node_vals g1 True n)"
          unfolding collect_values_fold by auto
        from n visited_subset[of "needs_observing g1" "g_root g1"] have ni: "nid n \<in> set (node_ids g1)"
          by (auto simp: node_ids_def)
        from vn have need: "needs_observing g1 n" and vo: "v \<in> set (n_outputs (g_nodes g1 (nid n)))"
          by (auto simp: node_vals_def split: if_splits)
        show ?thesis
        proof (cases "nid n < ?k")
          case True
          with fn vo have "v \<in> set (n_outputs (g_nodes g (nid n)))" by simp
          with iob True show ?thesis by (auto simp: list_all_iff)
        next
          case False
          with ni news have rg: "?k \<le> nid n" "nid n < ?k + 2 * ?m"
            using idb by (auto simp: node_ids_def tree_ids_def list_all_iff)
          define j where "j = (nid n - ?k) div 2"
          from rg have j: "j < ?m" and ij: "nid n = ?k + 2 * j \<or> nid n = ?k + 2 * j + 1"
            unfolding j_def by presburger+
          from j tk have "n_kind (snd (?sites ! j)) = kPythonOp" by simp
          with ij js j have "\<not> outputsNeedToBeObserved (g_nodes g1 (nid n))"
            by (auto simp: outputsNeedToBeObserved_def const_node_def blank_node_def)
          with need show ?thesis by (simp add: needs_observing_def)
        qed
      qed
      have "v_node (g_vals g x) < ?k" if "x < ?u" for x
        using wf that by (simp add: wf_graph_def list_all_iff)
      then have pv: "\<forall>x<?u. v_node (g_vals g x) \<notin> set [?k..<?k + 2 * ?m]"
        by fastforce
      from observe_values_prefix[OF r _ _ fv pv rt] olds show ?thesis
        by (simp add: u1)
    qed
    have "InsertObserverNodes g np dict = Inr g'" using pass Some r by simp
    moreover have "g_nodes g' (?k + 2 * j) = g_nodes g1 (?k + 2 * j)"
      "g_nodes g' (?k + 2 * j + 1) = g_nodes g1 (?k + 2 * j + 1)" if "j < ?m" for j
      using that fn' k1 by simp_all
    moreover have "\<forall>i<?k. g_nodes g' i = g_nodes g i" using fn fn' k1 by simp
    ultimately have c1: "InsertObserverNodes g np dict = Inr g'"
      and c4: "\<forall>j<?m.
          g_nodes g' (?k + 2 * j) =
            const_node (IString (uniqueName g (fst (?sites ! j)))) (?u + 2 * j)
        \<and> g_nodes g' (?k + 2 * j + 1) =
            (snd (?sites ! j))\<lparr>n_inputs := [fst (?sites ! j), ?u + 2 * j],
               n_outputs := [?u + 2 * j + 1]\<rparr>"
      and c5: "\<forall>i<?k. g_nodes g' i = g_nodes g i"
      using js by (auto simp: uniqueName_def)
    have c6: "dict ''activation'' = None \<longrightarrow> g' = g1" using Some by simp
    from px have c9: "(\<forall>st\<in>set ?sites. n_kind (snd st) = kPythonOp) \<longrightarrow>
          (\<exists>rest. g_root g' = Blk (bret (g_root g)) (map (\<lambda>i. Nd i []) [?k..<?k + 2 * ?m] @ rest))"
      by (rule impI)
    show ?thesis
      by (rule exI[of _ g1], rule exI[of _ g'], intro conjI c1 f1 rt c4 c5 c6 br fr c9)
  qed
qed

text \<open>
  The graph \<open>c = conv2d(x, w); y = relu(c); return y\<close> with the external input \<open>x\<close> and
  the module parameter \<open>w\<close>, and two observer templates that differ in their callable.
\<close>

definition conv_relu_graph :: graph where
  "conv_relu_graph =
     \<lparr>g_root = Blk 1 [Nd 2 [], Nd 3 []],
      g_nodes = (\<lambda>_. blank_node [])
        (0 := (blank_node kParam)\<lparr>n_outputs := [0, 1]\<rparr>,
         1 := (blank_node kReturn)\<lparr>n_inputs := [3]\<rparr>,
         2 := (blank_node ''aten::conv2d'')\<lparr>n_overload := drop 12 sig_conv2d, n_inputs := [0, 1], n_outputs := [2]\<rparr>,
         3 := (blank_node ''aten::relu'')\<lparr>n_overload := drop 10 sig_relu, n_inputs := [2], n_outputs := [3]\<rparr>),
      g_vals = (\<lambda>_. \<lparr>v_type = TensorType, v_name = [], v_node = 0\<rparr>)
        (0 := \<lparr>v_type = TensorType, v_name = ''x'', v_node = 0\<rparr>,
         1 := \<lparr>v_type = TensorType, v_name = ''w'', v_node = 0\<rparr>,
         2 := \<lparr>v_type = TensorType, v_name = ''c'', v_node = 2\<rparr>,
         3 := \<lparr>v_type = TensorType, v_name = ''y'', v_node = 3\<rparr>),
      g_inputs = [0, 1], g_next_node = 4, g_next_val = 4\<rparr>"

definition activation_template :: node where
  "activation_template = (blank_node kPythonOp)\<lparr>n_attr := ''observe_activation''\<rparr>"

definition param_template :: node where
  "param_template = (blank_node kPythonOp)\<lparr>n_attr := ''observe_param''\<rparr>"

lemma wf_conv_relu_graph: "wf_graph conv_relu_graph"
  by (simp add: wf_graph_def conv_relu_graph_def tree_ids_def blank_node_def upt_rec)

text \<open>Both templates, under the keys that the pass reads.\<close>

definition both_templates :: "string \<rightharpoonup> node" where
  "both_templates = [''activation'' \<mapsto> activation_template, ''param'' \<mapsto> param_template]"

text \<open>
  C5, at \<open>conv_relu_graph\<close> with one parameter. With both templates the input \<open>x\<close> gets a
  clone of the "activation" template and the parameter \<open>w\<close> a clone of the "param"
  template, and the four new nodes are the first nodes of the root block of the returned
  graph. With a template under "param" only, \<open>w\<close> is observed at the start of the root
  block, \<open>x\<close> is not, and no other observer is added.
\<close>

theorem input_observers_partitioned_witness:
  "wf_graph conv_relu_graph \<and> 1 \<le> length (g_inputs conv_relu_graph)
   \<and> input_sites conv_relu_graph 1 both_templates = [(0, activation_template), (1, param_template)]
   \<and> n_kind activation_template = kPythonOp \<and> n_kind param_template = kPythonOp
   \<and> (\<exists>g' rest. InsertObserverNodes conv_relu_graph 1 both_templates = Inr g'
          \<and> g_root g' = Blk 1 (Nd 4 [] # Nd 5 [] # Nd 6 [] # Nd 7 [] # rest)
          \<and> g_nodes g' 4 = const_node (IString ''x'') 4
          \<and> g_nodes g' 5 = activation_template\<lparr>n_inputs := [0, 4], n_outputs := [5]\<rparr>
          \<and> g_nodes g' 6 = const_node (IString ''w'') 6
          \<and> g_nodes g' 7 = param_template\<lparr>n_inputs := [1, 6], n_outputs := [7]\<rparr>)
   \<and> (\<exists>g'. InsertObserverNodes conv_relu_graph 1 [''param'' \<mapsto> param_template] = Inr g'
          \<and> g_root g' = Blk 1 [Nd 4 [], Nd 5 [], Nd 2 [], Nd 3 []]
          \<and> g_nodes g' 4 = const_node (IString ''w'') 4
          \<and> g_nodes g' 5 = param_template\<lparr>n_inputs := [1, 4], n_outputs := [5]\<rparr>)"
proof -
  have w: "wf_graph conv_relu_graph" by (rule wf_conv_relu_graph)
  have l: "1 \<le> length (g_inputs conv_relu_graph)" by (simp add: conv_relu_graph_def)
  have s2: "input_sites conv_relu_graph 1 both_templates = [(0, activation_template), (1, param_template)]"
    by (simp add: input_sites_def input_site_def input_observer_def conv_relu_graph_def
        is_tensor_def upt_rec both_templates_def)
  have k: "n_kind activation_template = kPythonOp" "n_kind param_template = kPythonOp"
    by (simp_all add: activation_template_def param_template_def blank_node_def)
  have gk: "g_next_node conv_relu_graph = 4" "g_next_val conv_relu_graph = 4"
    "bret (g_root conv_relu_graph) = 1"
    "uniqueName conv_relu_graph 0 = ''x''" "uniqueName conv_relu_graph 1 = ''w''"
    "bnodes (g_root conv_relu_graph) = [Nd 2 [], Nd 3 []]"
    "uniqueName conv_relu_graph (Suc 0) = ''w''"
    by (simp_all add: conv_relu_graph_def uniqueName_def)
  let ?g = conv_relu_graph
  from input_observers_partitioned[OF w l, of both_templates]
  obtain g1 :: graph and g' where p: "InsertObserverNodes ?g 1 both_templates = Inr g'"
    and "g_root g1 = Blk (bret (g_root ?g))
         (map (\<lambda>i. Nd i []) [g_next_node ?g..<g_next_node ?g + 2 * length (input_sites ?g 1 both_templates)]
          @ bnodes (g_root ?g))"
    and n: "\<forall>j<length (input_sites ?g 1 both_templates).
          g_nodes g' (g_next_node ?g + 2 * j) =
            const_node (IString (uniqueName ?g (fst (input_sites ?g 1 both_templates ! j))))
              (g_next_val ?g + 2 * j)
        \<and> g_nodes g' (g_next_node ?g + 2 * j + 1) =
            (snd (input_sites ?g 1 both_templates ! j))
              \<lparr>n_inputs := [fst (input_sites ?g 1 both_templates ! j), g_next_val ?g + 2 * j],
               n_outputs := [g_next_val ?g + 2 * j + 1]\<rparr>"
    and r: "(\<forall>st\<in>set (input_sites ?g 1 both_templates). n_kind (snd st) = kPythonOp) \<longrightarrow>
          (\<exists>rest. g_root g' = Blk (bret (g_root ?g))
             (map (\<lambda>i. Nd i []) [g_next_node ?g..<g_next_node ?g + 2 * length (input_sites ?g 1 both_templates)]
              @ rest))"
    by (elim exE conjE) (rule that, assumption+)
  have "\<forall>st\<in>set (input_sites ?g 1 both_templates). n_kind (snd st) = kPythonOp"
    unfolding s2 using k by simp
  from mp[OF r this] obtain rest where r0: "g_root g' = Blk (bret (g_root ?g))
             (map (\<lambda>i. Nd i []) [g_next_node ?g..<g_next_node ?g + 2 * length (input_sites ?g 1 both_templates)]
              @ rest)"
    by (rule exE)
  have up: "[4::nat..<8] = [4, 5, 6, 7]" by (simp add: upt_rec)
  from r0 have rt: "g_root g' = Blk 1 (Nd 4 [] # Nd 5 [] # Nd 6 [] # Nd 7 [] # rest)"
    unfolding s2 gk by (simp add: up)
  from spec[OF n, of 0] have n0:
    "g_nodes g' 4 = const_node (IString ''x'') 4"
    "g_nodes g' 5 = activation_template\<lparr>n_inputs := [0, 4], n_outputs := [5]\<rparr>"
    unfolding s2 gk by (simp_all add: gk)
  from spec[OF n, of 1] have n1:
    "g_nodes g' 6 = const_node (IString ''w'') 6"
    "g_nodes g' 7 = param_template\<lparr>n_inputs := [1, 6], n_outputs := [7]\<rparr>"
    unfolding s2 gk by (simp_all add: gk)
  have A: "\<exists>g' rest. InsertObserverNodes conv_relu_graph 1 both_templates = Inr g'
          \<and> g_root g' = Blk 1 (Nd 4 [] # Nd 5 [] # Nd 6 [] # Nd 7 [] # rest)
          \<and> g_nodes g' 4 = const_node (IString ''x'') 4
          \<and> g_nodes g' 5 = activation_template\<lparr>n_inputs := [0, 4], n_outputs := [5]\<rparr>
          \<and> g_nodes g' 6 = const_node (IString ''w'') 6
          \<and> g_nodes g' 7 = param_template\<lparr>n_inputs := [1, 6], n_outputs := [7]\<rparr>"
    by (rule exI[of _ g'], rule exI[of _ rest], intro conjI p rt n0 n1)
  let ?P = "[''param'' \<mapsto> param_template]"
  have s1: "input_sites ?g 1 ?P = [(1, param_template)]"
    by (simp add: input_sites_def input_site_def input_observer_def conv_relu_graph_def
        is_tensor_def upt_rec)
  from input_observers_partitioned[OF w l, of ?P]
  obtain h1 :: graph and h' where q: "InsertObserverNodes ?g 1 ?P = Inr h'"
    and hr: "g_root h1 = Blk (bret (g_root ?g))
         (map (\<lambda>i. Nd i []) [g_next_node ?g..<g_next_node ?g + 2 * length (input_sites ?g 1 ?P)]
          @ bnodes (g_root ?g))"
    and hn: "\<forall>j<length (input_sites ?g 1 ?P).
          g_nodes h' (g_next_node ?g + 2 * j) =
            const_node (IString (uniqueName ?g (fst (input_sites ?g 1 ?P ! j)))) (g_next_val ?g + 2 * j)
        \<and> g_nodes h' (g_next_node ?g + 2 * j + 1) =
            (snd (input_sites ?g 1 ?P ! j))
              \<lparr>n_inputs := [fst (input_sites ?g 1 ?P ! j), g_next_val ?g + 2 * j],
               n_outputs := [g_next_val ?g + 2 * j + 1]\<rparr>"
    and he: "?P ''activation'' = None \<longrightarrow> h' = h1"
    by (elim exE conjE) (rule that, assumption+)
  from he have e: "h' = h1" by simp
  have up2: "[4::nat..<6] = [4, 5]" by (simp add: upt_rec)
  from hr have h2: "g_root h' = Blk 1 [Nd 4 [], Nd 5 [], Nd 2 [], Nd 3 []]"
    unfolding s1 gk e by (simp add: up2)
  from spec[OF hn, of 0] have h3:
    "g_nodes h' 4 = const_node (IString ''w'') 4"
    "g_nodes h' 5 = param_template\<lparr>n_inputs := [1, 4], n_outputs := [5]\<rparr>"
    unfolding s1 gk by (simp_all add: gk)
  have B: "\<exists>g'. InsertObserverNodes conv_relu_graph 1 [''param'' \<mapsto> param_template] = Inr g'
          \<and> g_root g' = Blk 1 [Nd 4 [], Nd 5 [], Nd 2 [], Nd 3 []]
          \<and> g_nodes g' 4 = const_node (IString ''w'') 4
          \<and> g_nodes g' 5 = param_template\<lparr>n_inputs := [1, 4], n_outputs := [5]\<rparr>"
    by (rule exI[of _ h'], intro conjI q h2 h3)
  from w l s2 k A B show ?thesis by (intro conjI)
qed

text \<open>
  C5 as stated fails: a template supplied under the key "parameter" is never read, and
  the tensor-typed parameter \<open>w\<close> gets no observer; the graph is returned as it was.
\<close>

theorem parameter_key_is_not_read:
  "is_tensor conv_relu_graph 1
   \<and> InsertObserverNodes conv_relu_graph 1 [''parameter'' \<mapsto> param_template] = Inr conv_relu_graph"
  by (simp add: is_tensor_def InsertObserverNodes_def observe_input_def conv_relu_graph_def upt_rec
      collect_values_inactive Let_def)

text \<open>
  C6: the observer that \<open>addObserverFor\<close> inserts for a value \<open>v\<close> of the graph is the
  template with exactly two inputs, \<open>v\<close> followed by the output of a newly inserted
  constant that holds the unique name of \<open>v\<close>, and exactly one output, whose type is the
  type of \<open>v\<close> and whose name is the name of \<open>v\<close> followed by ".observed"; whatever
  inputs and outputs the template has are not on the clone, and no node that existed
  before is changed.
\<close>

theorem observer_node_shape:
  assumes "v < g_next_val g"
  shows "\<exists>g'. addObserverFor v (Some tmpl) (def, aft) g = Inr g'
     \<and> g_nodes g' (Suc (g_next_node g)) =
         tmpl\<lparr>n_inputs := [v, g_next_val g], n_outputs := [Suc (g_next_val g)]\<rparr>
     \<and> g_nodes g' (g_next_node g) = const_node (IString (uniqueName g v)) (g_next_val g)
     \<and> toIValue g' (g_next_val g) = Some (IString (uniqueName g v))
     \<and> v_type (g_vals g' (Suc (g_next_val g))) = v_type (g_vals g v)
     \<and> uniqueName g' (Suc (g_next_val g)) = uniqueName g v @ ''.observed''
     \<and> v_node (g_vals g' (Suc (g_next_val g))) = Suc (g_next_node g)
     \<and> g_vals g' v = g_vals g v
     \<and> (\<forall>i<g_next_node g. g_nodes g' i = g_nodes g i)
     \<and> g_root g' = link_blk aft (Suc (g_next_node g)) def (link_blk False (g_next_node g) def (g_root g))"
  using assms addObserverFor_effect[OF assms, of tmpl "def" aft]
  by (simp add: const_node_def uniqueName_def toIValue_def node_of_def blank_node_def)

text \<open>
  C6, at the output \<open>c\<close> of the convolution of \<open>conv_relu_graph\<close>, observed after its
  producer.
\<close>

theorem observer_node_shape_witness:
  "(2::nat) < g_next_val conv_relu_graph
   \<and> (\<exists>g'. addObserverFor 2 (Some activation_template) (2, True) conv_relu_graph = Inr g'
          \<and> n_inputs (g_nodes g' 5) = [2, 4] \<and> n_outputs (g_nodes g' 5) = [5]
          \<and> toIValue g' 4 = Some (IString ''c'')
          \<and> uniqueName g' 5 = ''c.observed''
          \<and> g_root g' = Blk 1 [Nd 4 [], Nd 2 [], Nd 5 [], Nd 3 []])"
proof -
  have h: "(2::nat) < g_next_val conv_relu_graph" by (simp add: conv_relu_graph_def)
  from observer_node_shape[OF h, of activation_template 2 True] h show ?thesis
    by (auto simp: conv_relu_graph_def uniqueName_def)
qed

section \<open>The effect of inserting a Quant/Dequant pair\<close>

text \<open>
  The graph \<open>v = relu(x); w = relu(v); return (v, w)\<close>, instrumented with an observer of
  \<open>v\<close> (node 4, with its name constant, node 3), and a dictionary that calibrates \<open>v\<close>.
  The value \<open>v\<close> (value 2) has a quantizable producer, a consumer, and is a declared
  output of the root block.
\<close>

definition shared_output_graph :: graph where
  "shared_output_graph =
     \<lparr>g_root = Blk 1 [Nd 2 [], Nd 3 [], Nd 4 [], Nd 5 []],
      g_nodes = (\<lambda>_. blank_node [])
        (0 := (blank_node kParam)\<lparr>n_outputs := [0]\<rparr>,
         1 := (blank_node kReturn)\<lparr>n_inputs := [2, 5]\<rparr>,
         2 := (blank_node ''aten::relu'')\<lparr>n_overload := drop 10 sig_relu, n_inputs := [0], n_outputs := [2]\<rparr>,
         3 := const_node (IString ''v'') 3,
         4 := activation_template\<lparr>n_inputs := [2, 3], n_outputs := [4]\<rparr>,
         5 := (blank_node ''aten::relu'')\<lparr>n_overload := drop 10 sig_relu, n_inputs := [2], n_outputs := [5]\<rparr>),
      g_vals = (\<lambda>_. \<lparr>v_type = TensorType, v_name = [], v_node = 0\<rparr>)
        (0 := \<lparr>v_type = TensorType, v_name = ''x'', v_node = 0\<rparr>,
         2 := \<lparr>v_type = TensorType, v_name = ''v'', v_node = 2\<rparr>,
         3 := \<lparr>v_type = StringType, v_name = [], v_node = 3\<rparr>,
         4 := \<lparr>v_type = TensorType, v_name = ''v.observed'', v_node = 4\<rparr>,
         5 := \<lparr>v_type = TensorType, v_name = ''w'', v_node = 5\<rparr>),
      g_inputs = [0], g_next_node = 6, g_next_val = 6\<rparr>"

definition quant_node :: "string \<Rightarrow> nat list \<Rightarrow> nat \<Rightarrow> node" where
  "quant_node scope ins out = (blank_node kQuantize)\<lparr>n_scope := scope, n_inputs := ins, n_outputs := [out]\<rparr>"

definition dequant_node :: "string \<Rightarrow> nat list \<Rightarrow> nat \<Rightarrow> node" where
  "dequant_node scope ins out = (blank_node kDequantize)\<lparr>n_scope := scope, n_inputs := ins, n_outputs := [out]\<rparr>"

definition new_val :: "jtype \<Rightarrow> string \<Rightarrow> nat \<Rightarrow> val" where
  "new_val t s n = \<lparr>v_type = t, v_name = s, v_node = n\<rparr>"

lemma create_eq:
  "create k g =
     ((g_next_node g, g_next_val g),
      g\<lparr>g_nodes := (g_nodes g)(g_next_node g := (blank_node k)\<lparr>n_outputs := [g_next_val g]\<rparr>),
        g_vals := (g_vals g)(g_next_val g := new_val TensorType [] (g_next_node g)),
        g_next_node := Suc (g_next_node g),
        g_next_val := Suc (g_next_val g)\<rparr>)"
  by (simp add: create_def prim_defs Let_def split_def blank_node_def new_val_def)

lemma createQuantNode_eq:
  assumes "v < g_next_val g" and "n < g_next_node g"
  shows "createQuantNode v n g =
     ((g_next_node g, g_next_val g),
      g\<lparr>g_nodes := (g_nodes g)(g_next_node g := quant_node (n_scope (g_nodes g n)) [] (g_next_val g)),
        g_vals := (g_vals g)(g_next_val g := new_val TensorType (v_name (g_vals g v) @ ''.quant'') (g_next_node g)),
        g_next_node := Suc (g_next_node g),
        g_next_val := Suc (g_next_val g)\<rparr>)"
  using assms
  by (simp add: createQuantNode_def create_eq setUniqueName_def setScope_def uniqueName_def
      quant_node_def new_val_def blank_node_def)

lemma createDeQuantNode_eq:
  assumes "v < g_next_val g" and "n < g_next_node g"
  shows "createDeQuantNode v n g =
     ((g_next_node g, g_next_val g),
      g\<lparr>g_nodes := (g_nodes g)(g_next_node g := dequant_node (n_scope (g_nodes g n)) [] (g_next_val g)),
        g_vals := (g_vals g)(g_next_val g := new_val TensorType (v_name (g_vals g v) @ ''.dequant'') (g_next_node g)),
        g_next_node := Suc (g_next_node g),
        g_next_val := Suc (g_next_val g)\<rparr>)"
  using assms
  by (simp add: createDeQuantNode_def create_eq setUniqueName_def setScope_def uniqueName_def
      dequant_node_def new_val_def blank_node_def)

lemma insertConstant_eq:
  "insertConstant iv ip g =
     (g_next_val g,
      g\<lparr>g_root := link_blk False (g_next_node g) ip (g_root g),
        g_nodes := (g_nodes g)(g_next_node g := const_node iv (g_next_val g)),
        g_vals := (g_vals g)(g_next_val g := new_val (type_of_ivalue iv) [] (g_next_node g)),
        g_next_node := Suc (g_next_node g),
        g_next_val := Suc (g_next_val g)\<rparr>)"
  by (simp add: insertConstant_def prim_defs Let_def split_def blank_node_def new_val_def const_node_def)

lemma insertQuantNodeParams_eq:
  assumes "q < g_next_node g"
  shows "insertQuantNodeParams q sc zp g =
     g\<lparr>g_root := link_blk False (Suc (g_next_node g)) q (link_blk False (g_next_node g) q (g_root g)),
       g_nodes := (g_nodes g)
         (q := (g_nodes g q)\<lparr>n_inputs := n_inputs (g_nodes g q) @ [g_next_val g, Suc (g_next_val g)]\<rparr>,
          g_next_node g := const_node (IDouble sc) (g_next_val g),
          Suc (g_next_node g) := const_node (IInt zp) (Suc (g_next_val g))),
       g_vals := (g_vals g)
         (g_next_val g := new_val FloatType [] (g_next_node g),
          Suc (g_next_val g) := new_val IntType [] (Suc (g_next_node g))),
       g_next_node := Suc (Suc (g_next_node g)),
       g_next_val := Suc (Suc (g_next_val g))\<rparr>"
  using assms
  apply (simp add: insertQuantNodeParams_def insertConstant_eq addInput_def)
  apply (intro graph.equality)
  apply (simp_all add: fun_eq_iff)
  done

lemma addQuantDeQuantNodes_effect:
  assumes "v < g_next_val g" and "v_node (g_vals g v) < g_next_node g"
  shows "addQuantDeQuantNodes v qp g =
     g\<lparr>g_root := link_blk False (Suc (Suc (Suc (g_next_node g)))) (g_next_node g)
                  (link_blk False (Suc (Suc (g_next_node g))) (g_next_node g)
                    (link_blk True (Suc (g_next_node g)) (g_next_node g)
                      (link_blk True (g_next_node g) (v_node (g_vals g v)) (g_root g)))),
       g_nodes := (\<lambda>i. (g_nodes g i)\<lparr>n_inputs := subst_val v (Suc (g_next_val g)) (n_inputs (g_nodes g i))\<rparr>)
          (g_next_node g := quant_node (n_scope (g_nodes g (v_node (g_vals g v))))
                               [v, Suc (Suc (g_next_val g)), Suc (Suc (Suc (g_next_val g)))] (g_next_val g),
           Suc (g_next_node g) := dequant_node (n_scope (g_nodes g (v_node (g_vals g v))))
                               [g_next_val g] (Suc (g_next_val g)),
           Suc (Suc (g_next_node g)) := const_node (IDouble (fst (snd qp))) (Suc (Suc (g_next_val g))),
           Suc (Suc (Suc (g_next_node g))) := const_node (IInt (snd (snd qp))) (Suc (Suc (Suc (g_next_val g))))),
       g_vals := (g_vals g)
          (g_next_val g := new_val TensorType (v_name (g_vals g v) @ ''.quant'') (g_next_node g),
           Suc (g_next_val g) := new_val TensorType (v_name (g_vals g v) @ ''.dequant'') (Suc (g_next_node g)),
           Suc (Suc (g_next_val g)) := new_val FloatType [] (Suc (Suc (g_next_node g))),
           Suc (Suc (Suc (g_next_val g))) := new_val IntType [] (Suc (Suc (Suc (g_next_node g))))),
       g_next_node := Suc (Suc (Suc (Suc (g_next_node g)))),
       g_next_val := Suc (Suc (Suc (Suc (g_next_val g))))\<rparr>"
  using assms
  apply (simp add: addQuantDeQuantNodes_def createQuantNode_eq createDeQuantNode_eq
      insertQuantNodeParams_eq insertAfter_def replaceAllUsesWith_def addInput_def Let_def)
  apply (intro graph.equality)
  apply (simp_all add: fun_eq_iff quant_node_def dequant_node_def subst_val_def)
  done



definition half_scale :: "string \<rightharpoonup> qparam" where
  "half_scale = [''v'' \<mapsto> (''activation'', 1 / 2, 3)]"

lemmas traversal_defs = visit_node_def visit_inputs_def visit_outputs_def classify_input_def
  classify_output_def matchQParamDictKeytoObserver_def emplace_def toIValue_def node_of_def
  is_tensor_def block_outputs_def push_blocks_def init_qstate_def checkIfNodeQuantizable_def
  operator_set_find_def quantnodeLookup_def op_identity_def sig_conv2d_def sig_relu_def
  sig_convolution_def blank_node_def const_node_def kPythonOp_def kConstant_def kParam_def
  kReturn_def Let_def

lemma shared_output_traverse:
  "traverse shared_output_graph half_scale [g_root shared_output_graph] init_qstate =
   Inr \<lparr>quantInputs = [(0, 2)], quantOutputs = [2, 2, 5], valueLookup = {2},
        nodes_to_remove = [4, 3], qparam_value_dict = [2 \<mapsto> (''activation'', 1 / 2, 3)]\<rparr>"
  by (simp add: shared_output_graph_def half_scale_def activation_template_def traversal_defs
      traverse.simps)

lemma addQuantDeQuantNodes_fields:
  assumes "v < g_next_val g" and "v_node (g_vals g v) < g_next_node g"
  shows "g_root (addQuantDeQuantNodes v qp g) =
           link_blk False (Suc (Suc (Suc (g_next_node g)))) (g_next_node g)
             (link_blk False (Suc (Suc (g_next_node g))) (g_next_node g)
               (link_blk True (Suc (g_next_node g)) (g_next_node g)
                 (link_blk True (g_next_node g) (v_node (g_vals g v)) (g_root g))))"
    and "g_nodes (addQuantDeQuantNodes v qp g) i =
           (if i = g_next_node g
            then quant_node (n_scope (g_nodes g (v_node (g_vals g v))))
                   [v, Suc (Suc (g_next_val g)), Suc (Suc (Suc (g_next_val g)))] (g_next_val g)
            else if i = Suc (g_next_node g)
            then dequant_node (n_scope (g_nodes g (v_node (g_vals g v)))) [g_next_val g] (Suc (g_next_val g))
            else if i = Suc (Suc (g_next_node g))
            then const_node (IDouble (fst (snd qp))) (Suc (Suc (g_next_val g)))
            else if i = Suc (Suc (Suc (g_next_node g)))
            then const_node (IInt (snd (snd qp))) (Suc (Suc (Suc (g_next_val g))))
            else (g_nodes g i)\<lparr>n_inputs := subst_val v (Suc (g_next_val g)) (n_inputs (g_nodes g i))\<rparr>)"
    and "g_vals (addQuantDeQuantNodes v qp g) x =
           (if x = g_next_val g
            then new_val TensorType (v_name (g_vals g v) @ ''.quant'') (g_next_node g)
            else if x = Suc (g_next_val g)
            then new_val TensorType (v_name (g_vals g v) @ ''.dequant'') (Suc (g_next_node g))
            else if x = Suc (Suc (g_next_val g))
            then new_val FloatType [] (Suc (Suc (g_next_node g)))
            else if x = Suc (Suc (Suc (g_next_val g)))
            then new_val IntType [] (Suc (Suc (Suc (g_next_node g))))
            else g_vals g x)"
    and "g_next_node (addQuantDeQuantNodes v qp g) = Suc (Suc (Suc (Suc (g_next_node g))))"
    and "g_next_val (addQuantDeQuantNodes v qp g) = Suc (Suc (Suc (Suc (g_next_val g))))"
    and "g_inputs (addQuantDeQuantNodes v qp g) = g_inputs g"
  by (simp_all add: addQuantDeQuantNodes_effect[OF assms])


text \<open>
  C1 fails where a value is an input of a node and a declared output of a block: the loop
  over the block outputs appends the value to \<open>quantOutputs\<close> without looking at
  \<open>valueLookup\<close>, so \<open>v\<close> is recorded twice and rewritten twice. The result holds two
  Quant/Dequant pairs behind the producer of \<open>v\<close> (nodes 10, 11 and 6, 7); the Quant node
  of the first pair (node 6) no longer reads \<open>v\<close> but the output of the second Dequant.
\<close>

theorem output_rewritten_twice:
  "(case InsertQuantDequantNodes shared_output_graph half_scale of
      Inl e \<Rightarrow> False
    | Inr g' \<Rightarrow>
        g_root g' = Blk 1 [Nd 2 [], Nd 12 [], Nd 13 [], Nd 10 [], Nd 11 [], Nd 8 [], Nd 9 [],
                           Nd 6 [], Nd 7 [], Nd 5 []]
        \<and> map (\<lambda>i. (n_kind (g_nodes g' i), n_inputs (g_nodes g' i), n_outputs (g_nodes g' i))) [6, 7, 10, 11] =
            [(kQuantize, [11, 8, 9], [6]), (kDequantize, [6], [7]),
             (kQuantize, [2, 12, 13], [10]), (kDequantize, [10], [11])]
        \<and> n_inputs (g_nodes g' 5) = [7]
        \<and> block_outputs g' (g_root g') = [7, 5])"
proof -
  let ?qp = "(''activation'', 1 / 2, 3) :: qparam"
  define g1 where "g1 = destroy_all [4, 3] shared_output_graph"
  define g2 where "g2 = addQuantDeQuantNodes 2 ?qp g1"
  define g3 where "g3 = addQuantDeQuantNodes 2 ?qp g2"
  have r: "InsertQuantDequantNodes shared_output_graph half_scale = Inr g3"
    by (simp add: InsertQuantDequantNodes_def shared_output_traverse rewrite_def rewrite_output_def
        rewrite_input_def g1_def g2_def g3_def)
  have g1: "g_next_val g1 = 6" "g_next_node g1 = 6" "v_node (g_vals g1 2) = 2"
    "g_root g1 = Blk 1 [Nd 2 [], Nd 5 []]"
    "n_inputs (g_nodes g1 5) = [2]" "n_inputs (g_nodes g1 (Suc 0)) = [2, 5]"
    by (simp_all add: g1_def destroy_all_def destroy_def shared_output_graph_def blank_node_def)
  have p2: "2 < g_next_val g1" "v_node (g_vals g1 2) < g_next_node g1"
    by (simp_all add: g1)
  note f2 = addQuantDeQuantNodes_fields[OF p2, of ?qp, folded g2_def]
  have g2: "g_next_val g2 = 10" "g_next_node g2 = 10" "v_node (g_vals g2 2) = 2"
    "g_root g2 = Blk 1 [Nd 2 [], Nd 8 [], Nd 9 [], Nd 6 [], Nd 7 [], Nd 5 []]"
    "n_inputs (g_nodes g2 5) = [7]" "n_inputs (g_nodes g2 (Suc 0)) = [7, 5]"
    "n_inputs (g_nodes g2 6) = [2, 8, 9]" "n_inputs (g_nodes g2 7) = [6]"
    "n_kind (g_nodes g2 6) = kQuantize" "n_kind (g_nodes g2 7) = kDequantize"
    "n_outputs (g_nodes g2 6) = [6]" "n_outputs (g_nodes g2 7) = [7]"
    by (simp_all add: f2 g1 new_val_def subst_val_def quant_node_def dequant_node_def blank_node_def)
  have p3: "2 < g_next_val g2" "v_node (g_vals g2 2) < g_next_node g2"
    by (simp_all add: g2)
  note f3 = addQuantDeQuantNodes_fields[OF p3, of ?qp, folded g3_def]
  have g3: "g_root g3 = Blk 1 [Nd 2 [], Nd 12 [], Nd 13 [], Nd 10 [], Nd 11 [], Nd 8 [], Nd 9 [],
                           Nd 6 [], Nd 7 [], Nd 5 []]"
    "n_inputs (g_nodes g3 5) = [7]" "n_inputs (g_nodes g3 (Suc 0)) = [7, 5]"
    "n_inputs (g_nodes g3 6) = [11, 8, 9]" "n_inputs (g_nodes g3 7) = [6]"
    "n_kind (g_nodes g3 6) = kQuantize" "n_kind (g_nodes g3 7) = kDequantize"
    "n_outputs (g_nodes g3 6) = [6]" "n_outputs (g_nodes g3 7) = [7]"
    "n_inputs (g_nodes g3 10) = [2, 12, 13]" "n_inputs (g_nodes g3 11) = [10]"
    "n_kind (g_nodes g3 10) = kQuantize" "n_kind (g_nodes g3 11) = kDequantize"
    "n_outputs (g_nodes g3 10) = [10]" "n_outputs (g_nodes g3 11) = [11]"
    by (simp_all add: f3 g2 new_val_def subst_val_def quant_node_def dequant_node_def blank_node_def)
  show ?thesis by (simp add: r g3 block_outputs_def)
qed

section \<open>Binding the calibration results\<close>

definition observer_binding :: "graph \<Rightarrow> (string \<rightharpoonup> qparam) \<Rightarrow> nat \<Rightarrow> (nat \<times> qparam) option" where
  "observer_binding g d n =
     (if n_kind (g_nodes g n) \<noteq> kPythonOp then None
      else case n_inputs (g_nodes g n) of
        v # vname # rest \<Rightarrow>
          (case toIValue g vname of
             Some (IString key) \<Rightarrow> (case d key of None \<Rightarrow> None | Some qp \<Rightarrow> Some (v, qp))
           | _ \<Rightarrow> None)
      | _ \<Rightarrow> None)"

definition name_constant :: "graph \<Rightarrow> nat \<Rightarrow> nat" where
  "name_constant g n = v_node (g_vals g (n_inputs (g_nodes g n) ! 1))"

definition bind_step :: "graph \<Rightarrow> (string \<rightharpoonup> qparam) \<Rightarrow> nd \<Rightarrow> qstate \<Rightarrow> qstate" where
  "bind_step g d n s =
     (case observer_binding g d (nid n) of
        Some b \<Rightarrow> s\<lparr>qparam_value_dict := emplace (fst b) (snd b) (qparam_value_dict s),
                   nodes_to_remove := nodes_to_remove s @ [nid n, name_constant g (nid n)]\<rparr>
      | None \<Rightarrow> visit_inputs g (nid n) (n_inputs (g_nodes g (nid n))) s)"

lemma node_step_bind:
  "node_step g d n s = Inr s' \<Longrightarrow> s' = bind_step g d n s"
  by (auto simp: node_step_def visit_node_def bind_step_def observer_binding_def name_constant_def
      matchQParamDictKeytoObserver_def Let_def
      split: sum.splits option.splits list.splits ivalue.splits if_splits)

definition removals :: "graph \<Rightarrow> (string \<rightharpoonup> qparam) \<Rightarrow> nd \<Rightarrow> nat list" where
  "removals g d n =
     (case observer_binding g d (nid n) of Some b \<Rightarrow> [nid n, name_constant g (nid n)] | None \<Rightarrow> [])"

definition bindings :: "graph \<Rightarrow> (string \<rightharpoonup> qparam) \<Rightarrow> nd \<Rightarrow> (nat \<times> qparam) list" where
  "bindings g d n = (case observer_binding g d (nid n) of Some b \<Rightarrow> [b] | None \<Rightarrow> [])"

lemma visit_inputs_frame:
  "qparam_value_dict (visit_inputs g n vs s) = qparam_value_dict s"
  "nodes_to_remove (visit_inputs g n vs s) = nodes_to_remove s"
  unfolding visit_inputs_def
  by (induction vs arbitrary: s) (simp_all add: classify_input_def)

lemma visit_outputs_frame:
  "qparam_value_dict (visit_outputs g vs s) = qparam_value_dict s"
  "nodes_to_remove (visit_outputs g vs s) = nodes_to_remove s"
  "quantInputs (visit_outputs g vs s) = quantInputs s"
  unfolding visit_outputs_def
  by (induction vs arbitrary: s) (simp_all add: classify_output_def)

lemma emplace_map_add: "emplace k x m = [k \<mapsto> x] ++ m"
  by (auto simp: emplace_def map_add_def fun_eq_iff split: option.splits)

lemma bind_step_fields:
  "qparam_value_dict (bind_step g d n s) = map_of (bindings g d n) ++ qparam_value_dict s"
  "nodes_to_remove (bind_step g d n s) = nodes_to_remove s @ removals g d n"
  by (auto simp: bind_step_def bindings_def removals_def visit_inputs_frame emplace_map_add
      split: option.splits)

lemma nodes_fold_fields:
  "foldE (node_step g d) ns s = Inr s' \<Longrightarrow>
   qparam_value_dict s' = map_of (concat (map (bindings g d) ns)) ++ qparam_value_dict s
   \<and> nodes_to_remove s' = nodes_to_remove s @ concat (map (removals g d) ns)"
proof (induction ns arbitrary: s)
  case Nil
  then show ?case by simp
next
  case (Cons n ns)
  from Cons.prems obtain s1 where 1: "node_step g d n s = Inr s1"
    and 2: "foldE (node_step g d) ns s1 = Inr s'"
    by (auto split: sum.splits)
  from node_step_bind[OF 1] have s1: "s1 = bind_step g d n s" .
  from Cons.IH[OF 2] show ?case
    by (simp add: s1 bind_step_fields)
qed


lemma blocks_fold_fields:
  "foldE (block_step g d) bs s = Inr s' \<Longrightarrow>
   qparam_value_dict s' = map_of (concat (map (bindings g d) (concat (map bnodes bs)))) ++ qparam_value_dict s
   \<and> nodes_to_remove s' = nodes_to_remove s @ concat (map (removals g d) (concat (map bnodes bs)))"
proof (induction bs arbitrary: s)
  case Nil
  then show ?case by simp
next
  case (Cons b bs)
  from Cons.prems obtain s1 where 1: "block_step g d b s = Inr s1"
    and 2: "foldE (block_step g d) bs s1 = Inr s'"
    by (auto split: sum.splits)
  from 1 obtain s0 where 0: "foldE (node_step g d) (bnodes b) s = Inr s0"
    and s1: "s1 = visit_outputs g (block_outputs g b) s0"
    by (auto simp: block_step_def split: sum.splits)
  from nodes_fold_fields[OF 0] Cons.IH[OF 2] show ?case
    by (simp add: s1 visit_outputs_frame)
qed

lemma traverse_fields:
  assumes "traverse g d [g_root g] init_qstate = Inr s"
  shows "qparam_value_dict s =
           map_of (concat (map (bindings g d) (concat (map bnodes (pop_order (\<lambda>_. True) [g_root g])))))"
    and "nodes_to_remove s =
           concat (map (removals g d) (concat (map bnodes (pop_order (\<lambda>_. True) [g_root g]))))"
  using blocks_fold_fields[of g d "pop_order (\<lambda>_. True) [g_root g]" init_qstate s] assms
  by (simp_all add: traverse_fold init_qstate_def)

lemma set_bindings:
  assumes "traverse g d [g_root g] init_qstate = Inr s"
  shows "(qparam_value_dict s v = Some qp) \<Longrightarrow> \<exists>n\<in>set (node_ids g). observer_binding g d n = Some (v, qp)"
    and "n \<in> set (node_ids g) \<Longrightarrow> observer_binding g d n = Some (v, qp) \<Longrightarrow>
         qparam_value_dict s v \<noteq> None \<and> n \<in> set (nodes_to_remove s) \<and> name_constant g n \<in> set (nodes_to_remove s)"
    and "x \<in> set (nodes_to_remove s) \<Longrightarrow>
         \<exists>n\<in>set (node_ids g). observer_binding g d n \<noteq> None \<and> (x = n \<or> x = name_constant g n)"
proof -
  define vis where "vis = concat (map bnodes (pop_order (\<lambda>_. True) [g_root g]))"
  have vis: "set vis = set (nodes_of_blk (g_root g))"
    unfolding vis_def by (rule set_visited_all)
  have m: "qparam_value_dict s = map_of (concat (map (bindings g d) vis))"
    and r: "nodes_to_remove s = concat (map (removals g d) vis)"
    using traverse_fields[OF assms] by (simp_all add: vis_def)
  have sb: "set (concat (map (bindings g d) vis)) =
        {b. \<exists>n\<in>set (node_ids g). observer_binding g d n = Some b}"
    by (auto simp: vis bindings_def node_ids_def split: option.splits)
  show "\<exists>n\<in>set (node_ids g). observer_binding g d n = Some (v, qp)" if "qparam_value_dict s v = Some qp"
    using that map_of_SomeD[of "concat (map (bindings g d) vis)" v qp] sb unfolding m by blast
  show "qparam_value_dict s v \<noteq> None \<and> n \<in> set (nodes_to_remove s) \<and> name_constant g n \<in> set (nodes_to_remove s)"
    if n: "n \<in> set (node_ids g)" and b: "observer_binding g d n = Some (v, qp)"
  proof -
    from n b have "(v, qp) \<in> set (concat (map (bindings g d) vis))" unfolding sb by blast
    then have "map_of (concat (map (bindings g d) vis)) v \<noteq> None"
      by (metis map_of_eq_None_iff fst_conv image_eqI)
    moreover from n obtain x where x: "x \<in> set vis" "nid x = n"
      unfolding vis node_ids_def by auto
    then have "removals g d x = [n, name_constant g n]"
      using b by (simp add: removals_def)
    with x have "n \<in> set (concat (map (removals g d) vis))" "name_constant g n \<in> set (concat (map (removals g d) vis))"
      by force+
    ultimately show ?thesis by (simp add: m r)
  qed
  show "\<exists>n\<in>set (node_ids g). observer_binding g d n \<noteq> None \<and> (x = n \<or> x = name_constant g n)"
    if "x \<in> set (nodes_to_remove s)"
  proof -
    from that obtain y where y: "y \<in> set vis" "x \<in> set (removals g d y)"
      unfolding r by auto
    then have "observer_binding g d (nid y) \<noteq> None \<and> (x = nid y \<or> x = name_constant g (nid y))"
      by (cases "observer_binding g d (nid y)") (auto simp: removals_def)
    moreover from y have "nid y \<in> set (node_ids g)"
      unfolding vis node_ids_def by simp
    ultimately show ?thesis by blast
  qed
qed


fun nids_nd :: "nd \<Rightarrow> nat list"
  and nids_blk :: "blk \<Rightarrow> nat list"
  and nids_nds :: "nd list \<Rightarrow> nat list"
  and nids_blks :: "blk list \<Rightarrow> nat list" where
  "nids_nd (Nd i bs) = i # nids_blks bs"
| "nids_blk (Blk r ns) = nids_nds ns"
| "nids_nds [] = []"
| "nids_nds (n # ns) = nids_nd n @ nids_nds ns"
| "nids_blks [] = []"
| "nids_blks (b # bs) = nids_blk b @ nids_blks bs"

lemma nids_eq:
  "nids_nd n = map nid (nodes_of_nd n)"
  "nids_blk b = map nid (nodes_of_blk b)"
  "nids_nds ns = map nid (nodes_of_nds ns)"
  "nids_blks bs = map nid (nodes_of_blks bs)"
  by (induction n and b and ns and bs rule: nids_nd_nids_blk_nids_nds_nids_blks.induct) simp_all

lemma node_ids_nids: "node_ids g = nids_blk (g_root g)"
  by (simp add: node_ids_def nids_eq)

lemma nids_nds_append: "nids_nds (xs @ ys) = nids_nds xs @ nids_nds ys"
  by (induction xs) simp_all

lemma unlink_ids:
  "(nid n \<noteq> a \<longrightarrow> a \<notin> set (nids_nd (unlink_nd a n))) \<and> set (nids_nd (unlink_nd a n)) \<subseteq> set (nids_nd n)"
  "a \<notin> set (nids_blk (unlink_blk a b)) \<and> set (nids_blk (unlink_blk a b)) \<subseteq> set (nids_blk b)"
  "a \<notin> set (nids_nds (unlink_nds a ns)) \<and> set (nids_nds (unlink_nds a ns)) \<subseteq> set (nids_nds ns)"
  "a \<notin> set (nids_blks (unlink_blks a bs)) \<and> set (nids_blks (unlink_blks a bs)) \<subseteq> set (nids_blks bs)"
  by (induction n and b and ns and bs rule: nids_nd_nids_blk_nids_nds_nids_blks.induct) auto

lemma destroy_all_ids:
  "set (node_ids (destroy_all rs g)) \<subseteq> set (node_ids g) - set rs"
  "g_next_node (destroy_all rs g) = g_next_node g"
proof -
  have "set (node_ids (fold destroy rs g)) \<subseteq> set (node_ids g) - set rs
        \<and> g_next_node (fold destroy rs g) = g_next_node g"
  proof (induction rs arbitrary: g)
    case Nil
    show ?case by simp
  next
    case (Cons r rs)
    have "set (node_ids (destroy r g)) \<subseteq> set (node_ids g) - {r}"
      using unlink_ids(2)[of r "g_root g"] by (auto simp: node_ids_nids destroy_def)
    moreover have "g_next_node (destroy r g) = g_next_node g" by (simp add: destroy_def)
    ultimately show ?case using Cons.IH[of "destroy r g"] by auto
  qed
  then show "set (node_ids (destroy_all rs g)) \<subseteq> set (node_ids g) - set rs"
    "g_next_node (destroy_all rs g) = g_next_node g"
    by (simp_all add: destroy_all_def)
qed

lemma link_ids:
  "set (nids_nd (link_nd aft new a n)) \<subseteq> insert new (set (nids_nd n))"
  "set (nids_blk (link_blk aft new a b)) \<subseteq> insert new (set (nids_blk b))"
  "set (nids_nds (link_nds aft new a ns)) \<subseteq> insert new (set (nids_nds ns))"
  "set (nids_blks (link_blks aft new a bs)) \<subseteq> insert new (set (nids_blks bs))"
  by (induction n and b and ns and bs rule: nids_nd_nids_blk_nids_nds_nids_blks.induct)
     (auto simp: nids_nds_append)

lemma createQuantNode_tree:
  "fst (fst (createQuantNode v n g)) = g_next_node g"
  "g_root (snd (createQuantNode v n g)) = g_root g"
  "g_next_node (snd (createQuantNode v n g)) = Suc (g_next_node g)"
  by (simp_all add: createQuantNode_def create_eq setUniqueName_def setScope_def)

lemma createDeQuantNode_tree:
  "fst (fst (createDeQuantNode v n g)) = g_next_node g"
  "g_root (snd (createDeQuantNode v n g)) = g_root g"
  "g_next_node (snd (createDeQuantNode v n g)) = Suc (g_next_node g)"
  by (simp_all add: createDeQuantNode_def create_eq setUniqueName_def setScope_def)

lemma insertQuantNodeParams_tree:
  "g_root (insertQuantNodeParams q sc zp g) =
     link_blk False (Suc (g_next_node g)) q (link_blk False (g_next_node g) q (g_root g))"
  "g_next_node (insertQuantNodeParams q sc zp g) = Suc (Suc (g_next_node g))"
  by (simp_all add: insertQuantNodeParams_def insertConstant_eq addInput_def)

lemma addQuantDeQuantNodes_tree:
  "g_root (addQuantDeQuantNodes v qp g) =
           link_blk False (Suc (Suc (Suc (g_next_node g)))) (g_next_node g)
             (link_blk False (Suc (Suc (g_next_node g))) (g_next_node g)
               (link_blk True (Suc (g_next_node g)) (g_next_node g)
                 (link_blk True (g_next_node g) (v_node (g_vals g v)) (g_root g))))"
  "g_next_node (addQuantDeQuantNodes v qp g) = Suc (Suc (Suc (Suc (g_next_node g))))"
  by (simp_all add: addQuantDeQuantNodes_def Let_def split_def createQuantNode_tree
      createDeQuantNode_tree insertQuantNodeParams_tree insertAfter_def replaceAllUsesWith_def
      addInput_def)

lemma addQuantDeQuantNodesForInput_tree:
  "g_root (addQuantDeQuantNodesForInput v n qp g) =
           link_blk False (Suc (Suc (Suc (g_next_node g)))) (g_next_node g)
             (link_blk False (Suc (Suc (g_next_node g))) (g_next_node g)
               (link_blk False (g_next_node g) (Suc (g_next_node g))
                 (link_blk False (Suc (g_next_node g)) n (g_root g))))"
  "g_next_node (addQuantDeQuantNodesForInput v n qp g) = Suc (Suc (Suc (Suc (g_next_node g))))"
  by (simp_all add: addQuantDeQuantNodesForInput_def Let_def split_def createQuantNode_tree
      createDeQuantNode_tree insertQuantNodeParams_tree insertBefore_def replaceInputWith_def
      addInput_def)


definition grows :: "graph \<Rightarrow> graph \<Rightarrow> bool" where
  "grows g g' =
     (set (node_ids g') \<subseteq> set (node_ids g) \<union> {i. g_next_node g \<le> i}
      \<and> g_next_node g \<le> g_next_node g')"

lemma grows_refl: "grows g g"
  by (auto simp: grows_def)

lemma grows_trans: "grows g g' \<Longrightarrow> grows g' g'' \<Longrightarrow> grows g g''"
  by (fastforce simp: grows_def)

lemma grows_fold:
  assumes "\<And>x g. grows g (f x g)"
  shows "grows g (fold f xs g)"
proof (induction xs arbitrary: g)
  case Nil
  show ?case by (simp add: grows_refl)
next
  case (Cons x xs)
  show ?case using grows_trans[OF assms[of g x] Cons.IH[of "f x g"]] by simp
qed

lemma link4_ids:
  "set (nids_blk (link_blk a1 (Suc (Suc (Suc k))) b1 (link_blk a2 (Suc (Suc k)) b2
        (link_blk a3 k3 b3 (link_blk a4 k4 b4 t))))) \<subseteq>
   set (nids_blk t) \<union> {k4, k3, Suc (Suc k), Suc (Suc (Suc k))}"
  using link_ids(2)[of a1 "Suc (Suc (Suc k))" b1 "link_blk a2 (Suc (Suc k)) b2 (link_blk a3 k3 b3 (link_blk a4 k4 b4 t))"]
    link_ids(2)[of a2 "Suc (Suc k)" b2 "link_blk a3 k3 b3 (link_blk a4 k4 b4 t)"]
    link_ids(2)[of a3 k3 b3 "link_blk a4 k4 b4 t"]
    link_ids(2)[of a4 k4 b4 t]
  by blast

lemma grows_rewrite_output: "grows g (rewrite_output m v g)"
proof (cases "m v")
  case None
  then show ?thesis by (simp add: rewrite_output_def grows_refl)
next
  case (Some qp)
  have "set (node_ids (addQuantDeQuantNodes v qp g)) \<subseteq>
        set (node_ids g) \<union> {Suc (g_next_node g), g_next_node g, Suc (Suc (g_next_node g)), Suc (Suc (Suc (g_next_node g)))}"
    unfolding node_ids_nids addQuantDeQuantNodes_tree
    using link4_ids[of False "g_next_node g" "g_next_node g" False "g_next_node g" True "Suc (g_next_node g)"
        "g_next_node g" True "g_next_node g" "v_node (g_vals g v)" "g_root g"]
    by auto
  then show ?thesis using Some
    by (auto simp: rewrite_output_def grows_def addQuantDeQuantNodes_tree)
qed

lemma grows_rewrite_input: "grows g (rewrite_input m e g)"
proof (cases "m (fst e)")
  case None
  then show ?thesis by (simp add: rewrite_input_def grows_refl)
next
  case (Some qp)
  have "set (node_ids (addQuantDeQuantNodesForInput (fst e) (snd e) qp g)) \<subseteq>
        set (node_ids g) \<union> {Suc (g_next_node g), g_next_node g, Suc (Suc (g_next_node g)), Suc (Suc (Suc (g_next_node g)))}"
    unfolding node_ids_nids addQuantDeQuantNodesForInput_tree
    using link4_ids[of False "g_next_node g" "g_next_node g" False "g_next_node g" False "g_next_node g"
        "Suc (g_next_node g)" False "Suc (g_next_node g)" "snd e" "g_root g"]
    by auto
  then show ?thesis using Some
    by (auto simp: rewrite_input_def grows_def addQuantDeQuantNodesForInput_tree)
qed

lemma grows_rewrite: "grows g (rewrite s g)"
  unfolding rewrite_def
  by (rule grows_trans[OF grows_fold grows_fold]) (rule grows_rewrite_output grows_rewrite_input)+


lemma tree_node_bound:
  assumes "wf_graph g" and "n \<in> set (node_ids g)"
  shows "n < g_next_node g"
  using assms by (auto simp: wf_graph_def tree_ids_def node_ids_def list_all_iff)

lemma name_constant_bound:
  assumes wf: "wf_graph g" and n: "n \<in> set (node_ids g)" and b: "observer_binding g d n = Some (v, qp)"
  shows "name_constant g n < g_next_node g"
proof -
  from b obtain vname rest where i: "n_inputs (g_nodes g n) = v # vname # rest"
    by (auto simp: observer_binding_def split: if_splits list.splits option.splits ivalue.splits)
  from wf n have nb: "n < g_next_node g" by (rule tree_node_bound)
  with wf i have "vname < g_next_val g"
    by (auto simp: wf_graph_def list_all_iff)
  with wf have "v_node (g_vals g vname) < g_next_node g"
    by (auto simp: wf_graph_def list_all_iff)
  then show ?thesis by (simp add: name_constant_def i)
qed

text \<open>
  C3: let \<open>n\<close> be a node of the graph that is an observer with a name in the calibration
  dictionary (\<open>observer_binding g d n = Some (v, qp)\<close>: an opaque call whose second input
  is a string constant holding a key of the dictionary, \<open>v\<close> its first input and \<open>qp\<close> the
  triple under that key), let no observer of \<open>v\<close> be matched with another triple (an
  observer is named after the value it observes, and a value is observed once), and let
  the traversal succeed. Then the value-to-parameter map holds \<open>qp\<close> for \<open>v\<close>. The
  observer and the node that produces its name constant are marked for removal; the
  traversal runs on the unchanged graph, the marked nodes are destroyed after it, and they
  are absent from the graph before the rewriting and from the graph that the pass returns.
\<close>

theorem observer_bound_and_removed:
  assumes wf: "wf_graph g"
    and tr: "traverse g d [g_root g] init_qstate = Inr s"
    and n: "n \<in> set (node_ids g)"
    and b: "observer_binding g d n = Some (v, qp)"
    and one: "\<forall>n'\<in>set (node_ids g). \<forall>qp'. observer_binding g d n' = Some (v, qp') \<longrightarrow> qp' = qp"
  shows "qparam_value_dict s v = Some qp
     \<and> n \<in> set (nodes_to_remove s) \<and> name_constant g n \<in> set (nodes_to_remove s)
     \<and> InsertQuantDequantNodes g d = Inr (rewrite s (destroy_all (nodes_to_remove s) g))
     \<and> n \<notin> set (node_ids (destroy_all (nodes_to_remove s) g))
     \<and> name_constant g n \<notin> set (node_ids (destroy_all (nodes_to_remove s) g))
     \<and> n \<notin> set (node_ids (rewrite s (destroy_all (nodes_to_remove s) g)))
     \<and> name_constant g n \<notin> set (node_ids (rewrite s (destroy_all (nodes_to_remove s) g)))"
proof -
  let ?g1 = "destroy_all (nodes_to_remove s) g"
  from set_bindings(2)[OF tr n b] have
    nn: "qparam_value_dict s v \<noteq> None" and r1: "n \<in> set (nodes_to_remove s)"
    and r2: "name_constant g n \<in> set (nodes_to_remove s)"
    by simp_all
  from nn obtain qp' where m: "qparam_value_dict s v = Some qp'" by auto
  from set_bindings(1)[OF tr m] obtain n' where
    "n' \<in> set (node_ids g)" "observer_binding g d n' = Some (v, qp')"
    by blast
  with one have "qp' = qp" by blast
  with m have 1: "qparam_value_dict s v = Some qp" by simp
  have 3: "InsertQuantDequantNodes g d = Inr (rewrite s ?g1)"
    using tr by (simp add: InsertQuantDequantNodes_def)
  have d1: "n \<notin> set (node_ids ?g1)" and d2: "name_constant g n \<notin> set (node_ids ?g1)"
    using destroy_all_ids(1)[of "nodes_to_remove s" g] r1 r2 by auto
  have nb: "n < g_next_node ?g1" "name_constant g n < g_next_node ?g1"
    using tree_node_bound[OF wf n] name_constant_bound[OF wf n b] by (simp_all add: destroy_all_ids(2))
  have f1: "n \<notin> set (node_ids (rewrite s ?g1))" and f2: "name_constant g n \<notin> set (node_ids (rewrite s ?g1))"
    using grows_rewrite[of ?g1 s] d1 d2 nb by (auto simp: grows_def)
  from 1 r1 r2 3 d1 d2 f1 f2 show ?thesis by blast
qed


definition shared_output_state :: qstate where
  "shared_output_state =
     \<lparr>quantInputs = [(0, 2)], quantOutputs = [2, 2, 5], valueLookup = {2},
      nodes_to_remove = [4, 3], qparam_value_dict = [2 \<mapsto> (''activation'', 1 / 2, 3)]\<rparr>"

lemma wf_shared_output_graph: "wf_graph shared_output_graph"
  by (simp add: wf_graph_def shared_output_graph_def tree_ids_def blank_node_def const_node_def
      activation_template_def upt_rec)

text \<open>
  C3, at the observer (node 4) of \<open>v\<close> in \<open>shared_output_graph\<close>, the only opaque call of
  that graph.
\<close>

theorem observer_bound_and_removed_witness:
  "wf_graph shared_output_graph
   \<and> traverse shared_output_graph half_scale [g_root shared_output_graph] init_qstate
       = Inr shared_output_state
   \<and> node_ids shared_output_graph = [2, 3, 4, 5]
   \<and> map (observer_binding shared_output_graph half_scale) [2, 3, 4, 5] =
       [None, None, Some (2, (''activation'', 1 / 2, 3)), None]
   \<and> name_constant shared_output_graph 4 = 3
   \<and> qparam_value_dict shared_output_state 2 = Some (''activation'', 1 / 2, 3)
   \<and> 4 \<notin> set (node_ids (rewrite shared_output_state
                  (destroy_all (nodes_to_remove shared_output_state) shared_output_graph)))
   \<and> 3 \<notin> set (node_ids (rewrite shared_output_state
                  (destroy_all (nodes_to_remove shared_output_state) shared_output_graph)))"
proof -
  have t: "traverse shared_output_graph half_scale [g_root shared_output_graph] init_qstate
       = Inr shared_output_state"
    by (simp add: shared_output_traverse shared_output_state_def)
  have ids: "node_ids shared_output_graph = [2, 3, 4, 5]"
    by (simp add: node_ids_def shared_output_graph_def)
  have bs: "map (observer_binding shared_output_graph half_scale) [2, 3, 4, 5] =
       [None, None, Some (2, (''activation'', 1 / 2, 3)), None]"
    by (simp add: observer_binding_def shared_output_graph_def half_scale_def toIValue_def
        node_of_def activation_template_def blank_node_def const_node_def kPythonOp_def
        kConstant_def)
  have m: "4 \<in> set (node_ids shared_output_graph)" by (simp add: ids)
  from bs have b: "observer_binding shared_output_graph half_scale 4 = Some (2, (''activation'', 1 / 2, 3))"
    by simp
  from bs have one: "\<forall>n'\<in>set (node_ids shared_output_graph). \<forall>qp'.
      observer_binding shared_output_graph half_scale n' = Some (2, qp') \<longrightarrow> qp' = (''activation'', 1 / 2, 3)"
    by (simp add: ids)
  have c: "name_constant shared_output_graph 4 = 3"
    by (simp add: name_constant_def shared_output_graph_def activation_template_def blank_node_def)
  from observer_bound_and_removed[OF wf_shared_output_graph t m b one] c
  have "qparam_value_dict shared_output_state 2 = Some (''activation'', 1 / 2, 3)
   \<and> 4 \<notin> set (node_ids (rewrite shared_output_state
                  (destroy_all (nodes_to_remove shared_output_state) shared_output_graph)))
   \<and> 3 \<notin> set (node_ids (rewrite shared_output_state
                  (destroy_all (nodes_to_remove shared_output_state) shared_output_graph)))"
    by simp
  with wf_shared_output_graph t ids bs c show ?thesis by blast
qed

section \<open>Values without calibration\<close>

























































section \<open>Properties of the matcher and of the reserved entry points\<close>

text \<open>
  C7: \<open>checkIfNodeQuantizable\<close> depends on the operator identity of the node only: it holds
  exactly when that identity is one of the three registered signatures (aten::conv2d,
  aten::relu, aten::_convolution). A qualified name alone, a proper prefix of a signature,
  or a signature with something appended does not match.
\<close>

theorem checkIfNodeQuantizable_exact:
  "(\<forall>n. checkIfNodeQuantizable n =
          (op_identity n = sig_conv2d \<or> op_identity n = sig_relu \<or> op_identity n = sig_convolution))
   \<and> \<not> checkIfNodeQuantizable (blank_node ''aten::relu'')
   \<and> \<not> checkIfNodeQuantizable (blank_node ''aten::conv2d'')
   \<and> \<not> checkIfNodeQuantizable (blank_node ''aten::_convolution'')
   \<and> \<not> checkIfNodeQuantizable ((blank_node ''aten::relu'')\<lparr>n_overload := ''(Tensor self)''\<rparr>)
   \<and> \<not> checkIfNodeQuantizable ((blank_node ''aten::relu'')\<lparr>n_overload := ''(Tensor self) -> Tensor ''\<rparr>)
   \<and> checkIfNodeQuantizable ((blank_node ''aten::relu'')\<lparr>n_overload := ''(Tensor self) -> Tensor''\<rparr>)"
  by (simp add: checkIfNodeQuantizable_def operator_set_find_def quantnodeLookup_def
      op_identity_def blank_node_def sig_conv2d_def sig_relu_def sig_convolution_def)

text \<open>
  C9: each of the reserved entry points \<open>PropagateQuantInfo\<close>, \<open>QuantLinting\<close> and
  \<open>FoldQuantNodesIntoInputsOutputs\<close> fails with the runtime error "Pass not implemented
  yet!" on every graph, and so never returns a graph, changed or not.
\<close>

theorem reserved_entry_points_fail:
  "PropagateQuantInfo g = Inl (RuntimeError ''Pass not implemented yet!'')
   \<and> QuantLinting g = Inl (RuntimeError ''Pass not implemented yet!'')
   \<and> FoldQuantNodesIntoInputsOutputs g = Inl (RuntimeError ''Pass not implemented yet!'')
   \<and> (\<forall>g'. PropagateQuantInfo g \<noteq> Inr g' \<and> QuantLinting g \<noteq> Inr g'
          \<and> FoldQuantNodesIntoInputsOutputs g \<noteq> Inr g')"
  by (simp add: PropagateQuantInfo_def QuantLinting_def FoldQuantNodesIntoInputsOutputs_def)

end
